theory Spec2Isabelle
  imports Main
begin

section \<open>Values of the host language\<close>

text \<open>
  The add-in is TypeScript and runs on a JavaScript engine. A cell of a table body is a
  scalar (\<open>Excel.Range.values\<close> holds strings, numbers and booleans; \<open>null\<close> is kept
  because the parameter is typed \<open>any[][]\<close>). Numbers are modelled as integers: the only
  thing the code asks of a number is whether it is zero. A record is an object; its own
  properties are kept as an association list in the order in which the engine enumerates
  them, which is the order \<open>JSON.stringify\<close> can observe.
\<close>

datatype scalar = JNull | JBool bool | JNum int | JStr string

datatype jsval = JUndefined | JScalar scalar | JObj "(string \<times> jsval) list"

text \<open>
  \<open>TypeError\<close> is the exception the engine throws. \<open>BuiltinProperty k\<close> marks the
  places where the walk may reach a property \<open>k\<close> that the host's built-in prototypes
  supply (\<open>Object.prototype.constructor\<close>, \<open>String.prototype.length\<close>, ...): what
  happens from there on depends on objects outside this program, and the model stops.
\<close>

datatype error = TypeError | BuiltinProperty string

fun truthy :: "jsval \<Rightarrow> bool" where
  "truthy JUndefined = False"
| "truthy (JScalar JNull) = False"
| "truthy (JScalar (JBool b)) = b"
| "truthy (JScalar (JNum n)) = (n \<noteq> 0)"
| "truthy (JScalar (JStr s)) = (s \<noteq> [])"
| "truthy (JObj ps) = True"

subsection \<open>Properties\<close>

definition objectPrototypeKeys :: "string list" where
  "objectPrototypeKeys =
     [''constructor'', ''hasOwnProperty'', ''isPrototypeOf'', ''propertyIsEnumerable'',
      ''toLocaleString'', ''toString'', ''valueOf'', ''__proto__'',
      ''__defineGetter__'', ''__defineSetter__'', ''__lookupGetter__'', ''__lookupSetter__'']"

definition numberPrototypeKeys :: "string list" where
  "numberPrototypeKeys = [''toExponential'', ''toFixed'', ''toPrecision'']"

text \<open>
  The names of \<open>String.prototype\<close> have grown with each edition of the language; the
  list is the union, so a name in it may be present on the host.
\<close>

definition stringPrototypeKeys :: "string list" where
  "stringPrototypeKeys =
     [''length'', ''anchor'', ''at'', ''big'', ''blink'', ''bold'', ''charAt'', ''charCodeAt'',
      ''codePointAt'', ''concat'', ''endsWith'', ''fixed'', ''fontcolor'', ''fontsize'',
      ''includes'', ''indexOf'', ''isWellFormed'', ''italics'', ''lastIndexOf'', ''link'',
      ''localeCompare'', ''match'', ''matchAll'', ''normalize'', ''padEnd'', ''padStart'',
      ''repeat'', ''replace'', ''replaceAll'', ''search'', ''slice'', ''small'', ''split'',
      ''startsWith'', ''strike'', ''sub'', ''substr'', ''substring'', ''sup'',
      ''toLocaleLowerCase'', ''toLocaleUpperCase'', ''toLowerCase'', ''toUpperCase'',
      ''toWellFormed'', ''trim'', ''trimEnd'', ''trimLeft'', ''trimRight'', ''trimStart'']"

definition charIn :: "char \<Rightarrow> char \<Rightarrow> char \<Rightarrow> bool" where
  "charIn lo hi c = ((of_char lo :: nat) \<le> of_char c \<and> (of_char c :: nat) \<le> of_char hi)"

definition isDigit :: "char \<Rightarrow> bool" where
  "isDigit c = charIn (CHR ''0'') (CHR ''9'') c"

text \<open>
  Whether reading property \<open>k\<close> of a primitive may find something: a built-in method
  of its wrapper, or for a string its length and its indexed characters.
\<close>

fun primitiveHas :: "scalar \<Rightarrow> string \<Rightarrow> bool" where
  "primitiveHas (JStr s) k =
     (k \<in> set objectPrototypeKeys \<or> k \<in> set stringPrototypeKeys \<or> (k \<noteq> [] \<and> list_all isDigit k))"
| "primitiveHas (JNum n) k = (k \<in> set objectPrototypeKeys \<or> k \<in> set numberPrototypeKeys)"
| "primitiveHas (JBool b) k = (k \<in> set objectPrototypeKeys)"
| "primitiveHas JNull k = False"

text \<open>\<open>x[k]\<close> as an expression.\<close>

fun getProp :: "jsval \<Rightarrow> string \<Rightarrow> error + jsval" where
  "getProp JUndefined k = Inl TypeError"
| "getProp (JScalar JNull) k = Inl TypeError"
| "getProp (JScalar s) k = (if primitiveHas s k then Inl (BuiltinProperty k) else Inr JUndefined)"
| "getProp (JObj ps) k =
     (case map_of ps k of
        Some v \<Rightarrow> Inr v
      | None \<Rightarrow> if k \<in> set objectPrototypeKeys then Inl (BuiltinProperty k) else Inr JUndefined)"

text \<open>
  The engine enumerates the own properties of an object with the array indices first,
  in ascending order, and the other keys after them in the order of their creation. An
  array index is the decimal numeral, without leading zeros, of a number below
  \<open>2\<^sup>3\<^sup>2 - 1\<close>.
\<close>

definition indexValue :: "string \<Rightarrow> nat" where
  "indexValue k = foldl (\<lambda>n c. 10 * n + (of_char c - of_char (CHR ''0''))) 0 k"

definition isIndexKey :: "string \<Rightarrow> bool" where
  "isIndexKey k =
     (list_all isDigit k \<and>
      (case k of [] \<Rightarrow> False | c # cs \<Rightarrow> charIn (CHR ''1'') (CHR ''9'') c \<or> cs = []) \<and>
      indexValue k < 4294967295)"

text \<open>
  Storing an own property, the list kept in the order of enumeration: an existing key
  keeps its place, a new array index goes before the first key that is no smaller
  index, and any other new key goes to the end.
\<close>

fun setOwn :: "string \<Rightarrow> jsval \<Rightarrow> (string \<times> jsval) list \<Rightarrow> (string \<times> jsval) list" where
  "setOwn k v [] = [(k, v)]"
| "setOwn k v (p # ps) =
     (if fst p = k then (k, v) # ps
      else if isIndexKey k \<and> map_of ps k = None \<and>
              \<not> (isIndexKey (fst p) \<and> indexValue (fst p) < indexValue k)
      then (k, v) # p # ps
      else p # setOwn k v ps)"

text \<open>
  \<open>x[k] = v\<close> as a statement; the result is \<open>x\<close> after the assignment. On
  \<open>undefined\<close> and \<open>null\<close> it throws. On another primitive it has no effect, and in
  strict mode throws; the key \<open>__proto__\<close> is an accessor of \<open>Object.prototype\<close>
  whose setter returns quietly for a primitive receiver and for a scalar value. Whether
  the compiled script is strict is not fixed by the source file, so it is a parameter.
\<close>

fun setProp :: "bool \<Rightarrow> jsval \<Rightarrow> string \<Rightarrow> jsval \<Rightarrow> error + jsval" where
  "setProp strict JUndefined k v = Inl TypeError"
| "setProp strict (JScalar JNull) k v = Inl TypeError"
| "setProp strict (JScalar s) k v =
     (if strict \<and> k \<noteq> ''__proto__'' then Inl TypeError else Inr (JScalar s))"
| "setProp strict (JObj ps) k v =
     (if k = ''__proto__'' then
        (case v of
           JUndefined \<Rightarrow> Inr (JObj ps)
         | JScalar s \<Rightarrow> if s = JNull then Inl (BuiltinProperty k) else Inr (JObj ps)
         | JObj qs \<Rightarrow> Inl (BuiltinProperty k))
      else Inr (JObj (setOwn k v ps)))"

section \<open>buildObject\<close>

text \<open>\<open>attr.split('.')\<close>: the pieces between the separators, at least one piece.\<close>

fun split :: "char \<Rightarrow> string \<Rightarrow> string list" where
  "split sep [] = [[]]"
| "split sep (c # cs) =
     (if c = sep then [] # split sep cs
      else (c # hd (split sep cs)) # tl (split sep cs))"

text \<open>
  The object \<open>child\<close> reached through \<open>inner[k]\<close> is mutated in place by the rest of
  the walk. The model has no references, so the changed child is stored back under the
  key it was read from; for a primitive \<open>inner\<close> there is nothing to store.
\<close>

fun storeBack :: "jsval \<Rightarrow> string \<Rightarrow> jsval \<Rightarrow> jsval" where
  "storeBack (JObj ps) k child = JObj (setOwn k child ps)"
| "storeBack inner k child = inner"

text \<open>
  Lines 120 to 127: the walk over \<open>attrKeys\<close> from \<open>innerObject\<close>, and the final
  assignment. The result is \<open>innerObject\<close> as the walk leaves it. \<open>split\<close> never
  returns the empty list; for it the source would read \<open>attrKeys[-1]\<close>, which is
  \<open>undefined\<close>, and use the key \<open>"undefined"\<close>.
\<close>

fun assignPath :: "bool \<Rightarrow> jsval \<Rightarrow> string list \<Rightarrow> jsval \<Rightarrow> error + jsval" where
  "assignPath strict inner [] v = setProp strict inner ''undefined'' v"
| "assignPath strict inner [k] v = setProp strict inner k v"
| "assignPath strict inner (k # k' # ks) v =
     (case getProp inner k of
        Inl e \<Rightarrow> Inl e
      | Inr cur \<Rightarrow>
          (case (if \<not> truthy cur then setProp strict inner k (JObj []) else Inr inner) of
             Inl e \<Rightarrow> Inl e
           | Inr inner1 \<Rightarrow>
               (case getProp inner1 k of
                  Inl e \<Rightarrow> Inl e
                | Inr child \<Rightarrow>
                    (case assignPath strict child (k' # ks) v of
                       Inl e \<Rightarrow> Inl e
                     | Inr child1 \<Rightarrow> Inr (storeBack inner1 k child1)))))"

text \<open>
  Lines 112 to 128: the loop over the columns of one row, \<open>c\<close> the index of the first
  remaining cell. \<open>keys[c]\<close> is \<open>undefined\<close> beyond the end of \<open>keys\<close>, and
  \<open>!attr\<close> holds for \<open>undefined\<close> and for the empty string.
\<close>

fun buildCols :: "bool \<Rightarrow> string list \<Rightarrow> nat \<Rightarrow> scalar list \<Rightarrow> jsval \<Rightarrow> error + jsval" where
  "buildCols strict keys c [] obj = Inr obj"
| "buildCols strict keys c (value # rest) obj =
     (if \<not> (c < length keys \<and> keys ! c \<noteq> []) then buildCols strict keys (Suc c) rest obj
      else
        (case assignPath strict obj (split (CHR ''.'') (keys ! c)) (JScalar value) of
           Inl e \<Rightarrow> Inl e
         | Inr obj1 \<Rightarrow> buildCols strict keys (Suc c) rest obj1))"

definition buildRow :: "bool \<Rightarrow> string list \<Rightarrow> scalar list \<Rightarrow> error + jsval" where
  "buildRow strict keys cols = buildCols strict keys 0 cols (JObj [])"

text \<open>Lines 108 to 131: the loop over the rows, \<open>result\<close> the records pushed so far.\<close>

fun buildRows :: "bool \<Rightarrow> string list \<Rightarrow> scalar list list \<Rightarrow> jsval list \<Rightarrow> error + jsval list" where
  "buildRows strict keys [] result = Inr result"
| "buildRows strict keys (cols # rows) result =
     (case buildRow strict keys cols of
        Inl e \<Rightarrow> Inl e
      | Inr obj \<Rightarrow> buildRows strict keys rows (result @ [obj]))"

definition buildObject :: "bool \<Rightarrow> scalar list list \<Rightarrow> string list \<Rightarrow> error + jsval list" where
  "buildObject strict values keys = buildRows strict keys values []"

section \<open>isValidAttr\<close>

text \<open>
  Regular expressions as far as the pattern of line 102 needs them: character classes
  given by their ranges, sequence, and repetition; \<open>RNone\<close>, \<open>REps\<close> and \<open>RAlt\<close>
  are what is left of a pattern after some characters have been read. The pattern is
  anchored with \<open>^\<close> and \<open>$\<close> and has no flags, so \<open>test\<close> asks whether the whole
  string belongs to the pattern. The classes hold ASCII characters only, so a character
  beyond ASCII is outside them however the string is encoded.
\<close>

datatype regex =
    RNone
  | REps
  | RClass "(char \<times> char) list"
  | RAlt regex regex
  | RSeq regex regex
  | RStar regex

definition inClass :: "(char \<times> char) list \<Rightarrow> char \<Rightarrow> bool" where
  "inClass ranges c = list_ex (\<lambda>r. charIn (fst r) (snd r) c) ranges"

fun nullable :: "regex \<Rightarrow> bool" where
  "nullable RNone = False"
| "nullable REps = True"
| "nullable (RClass ranges) = False"
| "nullable (RAlt r s) = (nullable r \<or> nullable s)"
| "nullable (RSeq r s) = (nullable r \<and> nullable s)"
| "nullable (RStar r) = True"

fun deriv :: "char \<Rightarrow> regex \<Rightarrow> regex" where
  "deriv c RNone = RNone"
| "deriv c REps = RNone"
| "deriv c (RClass ranges) = (if inClass ranges c then REps else RNone)"
| "deriv c (RAlt r s) = RAlt (deriv c r) (deriv c s)"
| "deriv c (RSeq r s) =
     (if nullable r then RAlt (RSeq (deriv c r) s) (deriv c s) else RSeq (deriv c r) s)"
| "deriv c (RStar r) = RSeq (deriv c r) (RStar r)"

definition test :: "regex \<Rightarrow> string \<Rightarrow> bool" where
  "test r s = nullable (fold deriv s r)"

definition RPlus :: "regex \<Rightarrow> regex" where
  "RPlus r = RSeq r (RStar r)"

definition wordClass :: regex where
  "wordClass =
     RClass [(CHR ''a'', CHR ''z''), (CHR ''A'', CHR ''Z''), (CHR ''0'', CHR ''9''),
             (CHR ''_'', CHR ''_'')]"

definition attrPattern :: regex where
  "attrPattern =
     RSeq (RPlus wordClass) (RStar (RSeq (RClass [(CHR ''.'', CHR ''.'')]) (RPlus wordClass)))"

definition isValidAttr :: "string \<Rightarrow> bool" where
  "isValidAttr attrString = test attrPattern attrString"

text \<open>The pattern as the specification writes it, \<open>^[A-Za-z0-9_]+(\.[A-Za-z0-9_]+)*$\<close>.\<close>

definition specClass :: regex where
  "specClass =
     RClass [(CHR ''A'', CHR ''Z''), (CHR ''a'', CHR ''z''), (CHR ''0'', CHR ''9''),
             (CHR ''_'', CHR ''_'')]"

definition keyPathPattern :: regex where
  "keyPathPattern =
     RSeq (RPlus specClass) (RStar (RSeq (RClass [(CHR ''.'', CHR ''.'')]) (RPlus specClass)))"

text \<open>
  The specification's words for a key path: one or more segments of word characters,
  each non-empty, joined by single dots.
\<close>

definition wordChar :: "char \<Rightarrow> bool" where
  "wordChar c =
     (charIn (CHR ''A'') (CHR ''Z'') c \<or> charIn (CHR ''a'') (CHR ''z'') c \<or>
      charIn (CHR ''0'') (CHR ''9'') c \<or> c = CHR ''_'')"

definition isSegment :: "string \<Rightarrow> bool" where
  "isSegment seg = (seg \<noteq> [] \<and> list_all wordChar seg)"

definition isKeyPath :: "string \<Rightarrow> bool" where
  "isKeyPath s = list_all isSegment (split (CHR ''.'') s)"

section \<open>Tables\<close>

text \<open>
  \<open>TableDetail\<close>, with \<open>body\<close> standing for \<open>body.values\<close>, the only thing read from
  the range. Line 73 to 79 build one from a table's name, the text of the row above it
  and its data body.
\<close>

record TableDetail =
  name :: string
  attrRow :: "string list"
  isValid :: bool
  body :: "scalar list list"

definition headerRowValid :: "string list \<Rightarrow> bool" where
  "headerRowValid text0 =
     (list_all (\<lambda>attr. attr = [] \<or> isValidAttr attr) text0 \<and> list_ex isValidAttr text0)"

definition tableDetail :: "string \<Rightarrow> string list \<Rightarrow> scalar list list \<Rightarrow> TableDetail" where
  "tableDetail tname text0 values =
     \<lparr>name = tname, attrRow = text0, isValid = headerRowValid text0, body = values\<rparr>"

section \<open>The JSON formatter\<close>

text \<open>\<open>Array.prototype.map\<close> with a callback that takes the element and its index.\<close>

fun mapIndex :: "('a \<Rightarrow> nat \<Rightarrow> 'b) \<Rightarrow> nat \<Rightarrow> 'a list \<Rightarrow> 'b list" where
  "mapIndex f i [] = []"
| "mapIndex f i (x # xs) = f x i # mapIndex f (Suc i) xs"

text \<open>
  Lines 172 to 179. \<open>JSON.stringify(o, null)\<close> is the engine's serialiser without
  indentation; it is the parameter \<open>stringify\<close>.
\<close>

definition jsonFormatter :: "(jsval \<Rightarrow> string) \<Rightarrow> jsval list \<Rightarrow> string list" where
  "jsonFormatter stringify data =
     [''[''] @
     mapIndex (\<lambda>obj index.
        stringify obj @ (if int index < int (length data) - 1 then '','' else [])) 0 data @
     ['']'']"

section \<open>updateSheet\<close>

text \<open>
  What \<open>updateSheet\<close> assigns to the ranges of the sheet: the three rows of metadata,
  and the JSON lines, one column per table.
\<close>

record SheetValues =
  metaNames :: "string list"
  metaValid :: "bool list"
  metaRows :: "nat list"
  jsonValues :: "string list list"
  rowMaxLength :: nat
  jsonRangeValues :: "string option list list"

text \<open>Lines 153 to 161: the loop that fills \<open>jsonValues\<close>.\<close>

fun jsonLoop ::
  "bool \<Rightarrow> (jsval list \<Rightarrow> string list) \<Rightarrow> TableDetail list \<Rightarrow> string list list \<Rightarrow>
   error + string list list" where
  "jsonLoop strict fmt [] acc = Inr acc"
| "jsonLoop strict fmt (t # ts) acc =
     (if isValid t then
        (case buildObject strict (body t) (attrRow t) of
           Inl e \<Rightarrow> Inl e
         | Inr tableArray \<Rightarrow> jsonLoop strict fmt ts (acc @ [fmt tableArray]))
      else jsonLoop strict fmt ts (acc @ [[]]))"

text \<open>
  Line 38: the columns of \<open>a\<close> as rows, as many as \<open>a[0]\<close> is long; \<open>a[0]\<close> of the
  empty array is \<open>undefined\<close> and \<open>map\<close> on it throws. A row shorter than \<open>a[0]\<close>
  gives \<open>undefined\<close>, here \<open>None\<close>.
\<close>

definition transposeJs :: "'a list list \<Rightarrow> error + 'a option list list" where
  "transposeJs a =
     (case a of
        [] \<Rightarrow> Inl TypeError
      | a0 # _ \<Rightarrow>
          Inr (map (\<lambda>c. map (\<lambda>r. if c < length r then Some (r ! c) else None) a)
                 [0 ..< length a0]))"

text \<open>
  Lines 144 to 164: the metadata, the loop, \<open>rowMaxLength\<close> and the transposed lines.
  The header column and the colours of lines 137 to 142 depend on nothing and are left
  out. An exception leaves the function before the values of the JSON range are assigned.
\<close>

definition updateSheet ::
  "bool \<Rightarrow> TableDetail list \<Rightarrow> (jsval list \<Rightarrow> string list) \<Rightarrow> error + SheetValues" where
  "updateSheet strict tables fmt =
     (case jsonLoop strict fmt tables [] of
        Inl e \<Rightarrow> Inl e
      | Inr jv \<Rightarrow>
          (case transposeJs jv of
             Inl e \<Rightarrow> Inl e
           | Inr tv \<Rightarrow>
               Inr \<lparr>metaNames = map name tables,
                    metaValid = map isValid tables,
                    metaRows = map (\<lambda>t. if isValid t then length (body t) else 0) tables,
                    jsonValues = jv,
                    rowMaxLength = fold max (map length jv) 0,
                    jsonRangeValues = tv\<rparr>))"

section \<open>Auxiliary notions for the proofs\<close>

text \<open>
  One column of a row: the header entry and the cell below it. \<open>foldCols\<close> runs the
  columns that have both, in order, and stops at the first error.
\<close>

definition assignCol :: "bool \<Rightarrow> string \<times> scalar \<Rightarrow> jsval \<Rightarrow> error + jsval" where
  "assignCol strict p obj =
     (if fst p = [] then Inr obj
      else assignPath strict obj (split (CHR ''.'') (fst p)) (JScalar (snd p)))"

fun foldCols :: "bool \<Rightarrow> (string \<times> scalar) list \<Rightarrow> jsval \<Rightarrow> error + jsval" where
  "foldCols strict [] obj = Inr obj"
| "foldCols strict (p # ps) obj =
     (case assignCol strict p obj of Inl e \<Rightarrow> Inl e | Inr obj1 \<Rightarrow> foldCols strict ps obj1)"

text \<open>
  The language of a pattern, to state what \<open>test\<close> decides: concatenation of two
  sets of strings, and the repetitions of one.
\<close>

definition conc :: "string set \<Rightarrow> string set \<Rightarrow> string set" where
  "conc A B = {a @ b | a b. a \<in> A \<and> b \<in> B}"

inductive_set star :: "string set \<Rightarrow> string set" for A :: "string set" where
  star_empty: "[] \<in> star A"
| star_more: "a \<in> A \<Longrightarrow> w \<in> star A \<Longrightarrow> a @ w \<in> star A"

fun lang :: "regex \<Rightarrow> string set" where
  "lang RNone = {}"
| "lang REps = {[]}"
| "lang (RClass ranges) = {[c] | c. inClass ranges c}"
| "lang (RAlt r s) = lang r \<union> lang s"
| "lang (RSeq r s) = conc (lang r) (lang s)"
| "lang (RStar r) = star (lang r)"

text \<open>
  The JSON lines of one table, as one pass of the loop of \<open>updateSheet\<close> computes them.
\<close>

definition tableLines ::
  "bool \<Rightarrow> (jsval list \<Rightarrow> string list) \<Rightarrow> TableDetail \<Rightarrow> error + string list" where
  "tableLines strict fmt t =
     (if isValid t then
        (case buildObject strict (body t) (attrRow t) of
           Inl e \<Rightarrow> Inl e
         | Inr tableArray \<Rightarrow> Inr (fmt tableArray))
      else Inr [])"

text \<open>
  The paths of a header row, and header rows whose paths do not meet: no segment is a
  name of \<open>Object.prototype\<close>, and no path is the beginning of another. \<open>lookupPath\<close>
  reads a record along a path; \<open>leavesIn t Q\<close> says that every scalar in \<open>t\<close> sits at
  a path of \<open>Q\<close>.
\<close>

fun lookupPath :: "jsval \<Rightarrow> string list \<Rightarrow> jsval option" where
  "lookupPath t [] = Some t"
| "lookupPath (JObj ps) (k # ks) =
     (case map_of ps k of None \<Rightarrow> None | Some c \<Rightarrow> lookupPath c ks)"
| "lookupPath t (k # ks) = None"

definition properPrefix :: "'a list \<Rightarrow> 'a list \<Rightarrow> bool" where
  "properPrefix p q = (length p < length q \<and> take (length p) q = p)"

definition headerPaths :: "string list \<Rightarrow> string list list" where
  "headerPaths keys = map (split (CHR ''.'')) (filter (\<lambda>attr. attr \<noteq> []) keys)"

definition conflictFree :: "string list \<Rightarrow> bool" where
  "conflictFree keys =
     (list_all (list_all (\<lambda>k. k \<notin> set objectPrototypeKeys)) (headerPaths keys) \<and>
      list_all (\<lambda>p. list_all (\<lambda>q. \<not> properPrefix p q) (headerPaths keys))
        (headerPaths keys))"

definition leavesIn :: "jsval \<Rightarrow> string list set \<Rightarrow> bool" where
  "leavesIn t Q = (\<forall>r s. lookupPath t r = Some (JScalar s) \<longrightarrow> r \<in> Q)"

text \<open>
  Two paths are apart when they differ and neither is the beginning of the other: an
  assignment along one of them leaves what is stored at the other untouched.
\<close>

definition apart :: "'a list \<Rightarrow> 'a list \<Rightarrow> bool" where
  "apart r q = (r \<noteq> q \<and> \<not> properPrefix r q \<and> \<not> properPrefix q r)"

text \<open>
  The value that a walk along a path builds from nothing: one object for each segment,
  each holding the next, the last holding the cell.
\<close>

fun branchOf :: "string list \<Rightarrow> jsval \<Rightarrow> jsval" where
  "branchOf [] v = v"
| "branchOf (k # ks) v = JObj [(k, branchOf ks v)]"

section \<open>Rows and columns\<close>

lemma buildCols_zip:
  "buildCols strict keys c cols obj = foldCols strict (zip (drop c keys) cols) obj"
proof (induction cols arbitrary: c obj)
  case Nil
  show ?case by simp
next
  case (Cons v rest)
  show ?case
  proof (cases "c < length keys")
    case True
    then have d: "drop c keys = keys ! c # drop (Suc c) keys"
      by (simp add: Cons_nth_drop_Suc)
    show ?thesis
      using True by (simp add: d Cons.IH assignCol_def split: sum.splits)
  next
    case False
    then show ?thesis by (simp add: Cons.IH)
  qed
qed

lemma foldCols_append:
  "foldCols strict (ps @ qs) obj =
     (case foldCols strict ps obj of Inl e \<Rightarrow> Inl e | Inr obj1 \<Rightarrow> foldCols strict qs obj1)"
  by (induction ps arbitrary: obj) (auto split: sum.splits)

lemma buildRow_zip: "buildRow strict keys cols = foldCols strict (zip keys cols) (JObj [])"
  by (simp add: buildRow_def buildCols_zip)

lemma buildRows_acc:
  "buildRows strict keys rows acc =
     (case buildRows strict keys rows [] of Inl e \<Rightarrow> Inl e | Inr rs \<Rightarrow> Inr (acc @ rs))"
proof (induction rows arbitrary: acc)
  case Nil
  show ?case by simp
next
  case (Cons cols rows)
  show ?case
    by (simp add: Cons.IH [of "acc @ _"] Cons.IH [of "[_]"] split: sum.splits)
qed

lemma buildObject_Cons:
  "buildObject strict (cols # rows) keys =
     (case buildRow strict keys cols of
        Inl e \<Rightarrow> Inl e
      | Inr obj \<Rightarrow>
          (case buildObject strict rows keys of Inl e \<Rightarrow> Inl e | Inr rs \<Rightarrow> Inr (obj # rs)))"
  by (simp add: buildObject_def buildRows_acc [of _ _ _ "[_]"] split: sum.splits)

lemma buildObject_Nil: "buildObject strict [] keys = Inr []"
  by (simp add: buildObject_def)

lemma buildObject_rows:
  "buildObject strict values keys = Inr rs \<longleftrightarrow>
     length rs = length values \<and>
     (\<forall>i < length values. buildRow strict keys (values ! i) = Inr (rs ! i))"
proof (induction "values" arbitrary: rs)
  case Nil
  show ?case by (auto simp: buildObject_Nil)
next
  case (Cons cols rows)
  show ?case
  proof (cases rs)
    case Nil
    then show ?thesis by (auto simp: buildObject_Cons split: sum.splits)
  next
    case (Cons r rs')
    have step: "buildObject strict (cols # rows) keys = Inr (r # rs') \<longleftrightarrow>
        buildRow strict keys cols = Inr r \<and> buildObject strict rows keys = Inr rs'"
      by (auto simp: buildObject_Cons split: sum.splits)
    show ?thesis
      unfolding Cons step Cons.IH [of rs'] by (auto simp: All_less_Suc2)
  qed
qed

section \<open>Patterns and their languages\<close>

lemma Nil_in_conc: "[] \<in> conc A B \<longleftrightarrow> [] \<in> A \<and> [] \<in> B"
  by (auto simp: conc_def)

lemma Cons_in_conc:
  "c # w \<in> conc A B \<longleftrightarrow>
     ([] \<in> A \<and> c # w \<in> B) \<or> (\<exists>u v. w = u @ v \<and> c # u \<in> A \<and> v \<in> B)"
  by (auto simp: conc_def Cons_eq_append_conv)

lemma in_conc: "w \<in> conc A B \<longleftrightarrow> (\<exists>u v. w = u @ v \<and> u \<in> A \<and> v \<in> B)"
  by (auto simp: conc_def)

lemma star_Cons_split:
  assumes "x \<in> star A" and "x = c # w"
  shows "\<exists>u v. w = u @ v \<and> c # u \<in> A \<and> v \<in> star A"
  using assms
proof (induction arbitrary: w rule: star.induct)
  case star_empty
  then show ?case by simp
next
  case (star_more a x)
  show ?case
  proof (cases a)
    case Nil
    with star_more show ?thesis by simp
  next
    case (Cons d u)
    with star_more.prems have "d = c" and "w = u @ x" by simp_all
    with star_more.hyps Cons show ?thesis by blast
  qed
qed

lemma Cons_in_star:
  "c # w \<in> star A \<longleftrightarrow> (\<exists>u v. w = u @ v \<and> c # u \<in> A \<and> v \<in> star A)"
proof
  assume "c # w \<in> star A"
  then show "\<exists>u v. w = u @ v \<and> c # u \<in> A \<and> v \<in> star A"
    by (rule star_Cons_split) simp
next
  assume "\<exists>u v. w = u @ v \<and> c # u \<in> A \<and> v \<in> star A"
  then obtain u v where "w = u @ v" "c # u \<in> A" "v \<in> star A" by blast
  then show "c # w \<in> star A"
    using star_more [of "c # u" A v] by simp
qed

lemma nullable_lang: "nullable r \<longleftrightarrow> [] \<in> lang r"
  by (induction r) (auto simp: Nil_in_conc star_empty)

lemma deriv_lang: "w \<in> lang (deriv c r) \<longleftrightarrow> c # w \<in> lang r"
proof (induction r arbitrary: w)
  case (RSeq r s)
  have "w \<in> lang (deriv c (RSeq r s)) \<longleftrightarrow>
          ([] \<in> lang r \<and> c # w \<in> lang s) \<or>
          (\<exists>u v. w = u @ v \<and> c # u \<in> lang r \<and> v \<in> lang s)"
    by (auto simp: RSeq nullable_lang in_conc)
  then show ?case
    by (simp add: Cons_in_conc)
next
  case (RStar r)
  have "w \<in> lang (deriv c (RStar r)) \<longleftrightarrow>
          (\<exists>u v. w = u @ v \<and> c # u \<in> lang r \<and> v \<in> star (lang r))"
    by (simp add: RStar in_conc)
  then show ?case
    by (simp add: Cons_in_star)
qed auto

lemma test_lang: "test r s \<longleftrightarrow> s \<in> lang r"
  unfolding test_def
  by (induction s arbitrary: r) (simp_all add: nullable_lang deriv_lang)

subsection \<open>Splitting at the separator\<close>

lemma split_not_Nil: "split sep s \<noteq> []"
  by (induction s) simp_all

lemma split_no_sep: "sep \<notin> set w \<Longrightarrow> split sep w = [w]"
  by (induction w) auto

lemma split_append_sep: "sep \<notin> set w \<Longrightarrow> split sep (w @ sep # s) = w # split sep s"
  by (induction w) auto

lemma split_cases:
  "\<exists>w. sep \<notin> set w \<and>
     ((s = w \<and> split sep s = [w]) \<or> (\<exists>s'. s = w @ sep # s' \<and> split sep s = w # split sep s'))"
proof (induction s)
  case Nil
  show ?case by simp
next
  case (Cons c cs)
  show ?case
  proof (cases "c = sep")
    case True
    then have "c # cs = [] @ sep # cs \<and> split sep (c # cs) = [] # split sep cs" by simp
    then show ?thesis by (metis empty_iff empty_set)
  next
    case False
    from Cons obtain w where w: "sep \<notin> set w"
      and d: "(cs = w \<and> split sep cs = [w]) \<or> (\<exists>s'. cs = w @ sep # s' \<and> split sep cs = w # split sep s')"
      by blast
    have "sep \<notin> set (c # w)" using False w by simp
    moreover have "(c # cs = c # w \<and> split sep (c # cs) = [c # w]) \<or>
      (\<exists>s'. c # cs = (c # w) @ sep # s' \<and> split sep (c # cs) = (c # w) # split sep s')"
      using d False by auto
    ultimately show ?thesis by blast
  qed
qed

subsection \<open>The pattern of line 102\<close>

lemma concI: "u \<in> A \<Longrightarrow> v \<in> B \<Longrightarrow> u @ v \<in> conc A B"
  by (auto simp: conc_def)

lemma charIn_same: "charIn x x c \<longleftrightarrow> c = x"
  by (auto simp: charIn_def)

lemma not_wordChar_dot: "\<not> wordChar (CHR ''.'')"
  by (simp add: wordChar_def charIn_def)

lemma wordChar_not_dot: "wordChar c \<Longrightarrow> c \<noteq> CHR ''.''"
  using not_wordChar_dot by blast

lemma inClass_word:
  "inClass [(CHR ''a'', CHR ''z''), (CHR ''A'', CHR ''Z''), (CHR ''0'', CHR ''9''),
             (CHR ''_'', CHR ''_'')] c \<longleftrightarrow> wordChar c"
  unfolding inClass_def wordChar_def list_ex_Cons_iff list_ex_Nil_iff fst_conv snd_conv charIn_same
  by blast

lemma inClass_dot: "inClass [(CHR ''.'', CHR ''.'')] c \<longleftrightarrow> c = CHR ''.''"
  unfolding inClass_def list_ex_Cons_iff list_ex_Nil_iff fst_conv snd_conv charIn_same by simp

lemma lang_wordClass: "lang wordClass = {[c] | c. wordChar c}"
  by (simp add: wordClass_def inClass_word)

lemma lang_dot: "lang (RClass [(CHR ''.'', CHR ''.'')]) = {''.''}"
  by (simp add: inClass_dot)

lemma star_chars_all: "w \<in> star {[c] | c. P c} \<Longrightarrow> list_all P w"
proof (induction rule: star.induct)
  case star_empty
  show ?case by simp
next
  case (star_more a w)
  from star_more.hyps(1) obtain c where "a = [c]" and "P c" by blast
  with star_more.IH show ?case by simp
qed

lemma all_star_chars: "list_all P w \<Longrightarrow> w \<in> star {[c] | c. P c}"
proof (induction w)
  case Nil
  show ?case by (rule star_empty)
next
  case (Cons c w)
  from Cons.prems have "P c" and "list_all P w" by simp_all
  then have "[c] \<in> {[c] | c. P c}" and "w \<in> star {[c] | c. P c}"
    using Cons.IH by blast+
  then have "[c] @ w \<in> star {[c] | c. P c}" by (rule star_more)
  then show ?case by simp
qed

lemma star_chars: "star {[c] | c. P c} = {w. list_all P w}"
  using star_chars_all all_star_chars by blast

lemma segment_conc:
  "w \<in> conc {[c] | c. wordChar c} {w. list_all wordChar w} \<longleftrightarrow> isSegment w"
proof
  assume "w \<in> conc {[c] | c. wordChar c} {w. list_all wordChar w}"
  then obtain u v where "w = u @ v" and u: "u \<in> {[c] | c. wordChar c}" and "list_all wordChar v"
    unfolding in_conc by blast
  moreover from u obtain c where "u = [c]" and "wordChar c" by blast
  ultimately show "isSegment w" by (simp add: isSegment_def)
next
  assume "isSegment w"
  then obtain c v where w: "w = c # v" and "wordChar c" and "list_all wordChar v"
    by (cases w) (simp_all add: isSegment_def)
  then have "[c] \<in> {[c] | c. wordChar c}" and "v \<in> {w. list_all wordChar w}" by blast+
  then have "[c] @ v \<in> conc {[c] | c. wordChar c} {w. list_all wordChar w}" by (rule concI)
  then show "w \<in> conc {[c] | c. wordChar c} {w. list_all wordChar w}" by (simp add: w)
qed

lemma lang_segment: "lang (RPlus wordClass) = {w. isSegment w}"
proof -
  have "lang (RPlus wordClass) = conc {[c] | c. wordChar c} {w. list_all wordChar w}"
    by (simp only: RPlus_def lang.simps lang_wordClass star_chars)
  then show ?thesis using segment_conc by blast
qed

lemma isSegment_no_dot: "isSegment w \<Longrightarrow> CHR ''.'' \<notin> set w"
  by (auto simp: isSegment_def list_all_iff dest: wordChar_not_dot)

lemma tail_segments:
  "t \<in> star (conc {''.''} {w. isSegment w}) \<Longrightarrow> isSegment w \<Longrightarrow>
   list_all isSegment (split (CHR ''.'') (w @ t))"
proof (induction arbitrary: w rule: star.induct)
  case star_empty
  then show ?case by (simp add: split_no_sep isSegment_no_dot)
next
  case (star_more a t)
  from star_more.hyps(1) obtain w' where a: "a = CHR ''.'' # w'" and w': "isSegment w'"
    by (auto simp: conc_def)
  have "split (CHR ''.'') (w @ a @ t) = w # split (CHR ''.'') (w' @ t)"
    using star_more.prems by (simp add: a split_append_sep isSegment_no_dot)
  then show ?case
    using star_more.prems star_more.IH [OF w'] by simp
qed

lemma segments_in_lang:
  "list_all isSegment (split (CHR ''.'') s) \<Longrightarrow>
   s \<in> conc {w. isSegment w} (star (conc {''.''} {w. isSegment w}))"
proof (induction s rule: length_induct)
  case (1 s)
  let ?T = "star (conc {''.''} {w. isSegment w})"
  obtain w where "(s = w \<and> split (CHR ''.'') s = [w]) \<or>
      (\<exists>s'. s = w @ CHR ''.'' # s' \<and> split (CHR ''.'') s = w # split (CHR ''.'') s')"
    using split_cases [of "CHR ''.''" s] by blast
  then show ?case
  proof
    assume a: "s = w \<and> split (CHR ''.'') s = [w]"
    from a have sw: "s = w" by (rule conjunct1)
    from a have sp: "split (CHR ''.'') s = [w]" by (rule conjunct2)
    from "1.prems" have "isSegment w" unfolding sp by simp
    then have "w \<in> {w. isSegment w}" by simp
    moreover have "[] \<in> ?T" by (rule star_empty)
    ultimately have "w @ [] \<in> conc {w. isSegment w} ?T" by (rule concI)
    then show ?thesis unfolding sw by simp
  next
    assume "\<exists>s'. s = w @ CHR ''.'' # s' \<and> split (CHR ''.'') s = w # split (CHR ''.'') s'"
    then obtain s' where s: "s = w @ CHR ''.'' # s'"
      and sp: "split (CHR ''.'') s = w # split (CHR ''.'') s'" by blast
    from "1.prems" have w: "isSegment w" and rest: "list_all isSegment (split (CHR ''.'') s')"
      unfolding sp by simp_all
    have "length s' < length s" unfolding s by simp
    with "1.IH" rest have "s' \<in> conc {w. isSegment w} ?T"
      by blast
    then obtain w' t where s': "s' = w' @ t" and w': "isSegment w'" and t: "t \<in> ?T"
      unfolding in_conc by blast
    have "[CHR ''.''] @ w' \<in> conc {''.''} {w. isSegment w}"
      by (rule concI) (simp_all add: w')
    then have "([CHR ''.''] @ w') @ t \<in> ?T"
      using t by (rule star_more)
    with w have "w @ (([CHR ''.''] @ w') @ t) \<in> conc {w. isSegment w} ?T"
      by (intro concI) simp_all
    then show ?thesis unfolding s s' by simp
  qed
qed

lemma lang_attrPattern_eq:
  "lang attrPattern = conc {w. isSegment w} (star (conc {''.''} {w. isSegment w}))"
  by (simp only: attrPattern_def lang.simps(5,6) lang_segment lang_dot)

lemma lang_attrPattern: "s \<in> lang attrPattern \<longleftrightarrow> isKeyPath s"
proof
  assume "s \<in> lang attrPattern"
  then obtain w t where "s = w @ t" "w \<in> {w. isSegment w}"
      "t \<in> star (conc {''.''} {w. isSegment w})"
    unfolding lang_attrPattern_eq in_conc [of s] by blast
  then show "isKeyPath s"
    by (simp add: isKeyPath_def tail_segments)
next
  assume "isKeyPath s"
  then show "s \<in> lang attrPattern"
    unfolding lang_attrPattern_eq isKeyPath_def by (rule segments_in_lang)
qed

lemma isValidAttr_iff: "isValidAttr s \<longleftrightarrow> isKeyPath s"
  by (simp add: isValidAttr_def test_lang lang_attrPattern)

lemma wordChar_simps:
  "wordChar (CHR ''a'')" "wordChar (CHR ''b'')" "\<not> wordChar (CHR '' '')"
  "\<not> wordChar (CHR ''.'')" "wordChar (CHR ''1'')" "wordChar (CHR ''d'')"
  by (simp_all add: wordChar_def charIn_def)

lemma examples_isKeyPath:
  "\<not> isKeyPath []" "\<not> isKeyPath ''a.''" "\<not> isKeyPath ''.a''"
  "\<not> isKeyPath ''a..b''" "\<not> isKeyPath ''a b''" "isKeyPath ''a.b''" "isKeyPath ''1bad''"
  by (simp_all add: isKeyPath_def isSegment_def wordChar_simps)

lemma not_isValidAttr_empty: "\<not> isValidAttr []"
  by (simp add: isValidAttr_iff examples_isKeyPath)

lemma inClass_spec:
  "inClass [(CHR ''A'', CHR ''Z''), (CHR ''a'', CHR ''z''), (CHR ''0'', CHR ''9''),
             (CHR ''_'', CHR ''_'')] c \<longleftrightarrow> wordChar c"
  unfolding inClass_def wordChar_def list_ex_Cons_iff list_ex_Nil_iff fst_conv snd_conv charIn_same
  by blast

lemma lang_classes: "lang specClass = lang wordClass"
  by (simp add: specClass_def wordClass_def inClass_spec inClass_word)

lemma lang_keyPathPattern: "lang keyPathPattern = lang attrPattern"
  by (simp add: keyPathPattern_def attrPattern_def RPlus_def lang_classes)

lemma test_keyPathPattern: "test keyPathPattern s \<longleftrightarrow> isValidAttr s"
  by (simp add: isValidAttr_def test_lang lang_keyPathPattern)

text \<open>
  C3. \<open>isValidAttr\<close> is a total function that holds of exactly the strings of the
  specification's pattern, which are the key paths: one or more non-empty segments of
  letters, digits and underscores joined by single dots. The empty string, a trailing,
  a leading and a doubled dot, and a blank inside are all rejected.
\<close>

theorem isValidAttr_key_path:
  "(isValidAttr s \<longleftrightarrow> test keyPathPattern s) \<and>
   (isValidAttr s \<longleftrightarrow> isKeyPath s) \<and>
   \<not> isValidAttr [] \<and> \<not> isValidAttr ''a.'' \<and> \<not> isValidAttr ''.a'' \<and>
   \<not> isValidAttr ''a..b'' \<and> \<not> isValidAttr ''a b''"
proof (intro conjI)
  show "isValidAttr s \<longleftrightarrow> test keyPathPattern s"
    by (simp add: test_keyPathPattern)
  show "isValidAttr s \<longleftrightarrow> isKeyPath s"
    by (rule isValidAttr_iff)
  show "\<not> isValidAttr []" "\<not> isValidAttr ''a.''" "\<not> isValidAttr ''.a''"
    "\<not> isValidAttr ''a..b''" "\<not> isValidAttr ''a b''"
    by (simp_all add: isValidAttr_iff examples_isKeyPath)
qed

theorem isValidAttr_key_path_witness:
  "isValidAttr ''a.b'' \<and> isKeyPath ''a.b'' \<and> test keyPathPattern ''a.b''"
  using isValidAttr_key_path [of "''a.b''"] examples_isKeyPath(6) by blast

section \<open>Validity of a header row\<close>

lemma headerRowValid_iff:
  "headerRowValid hs \<longleftrightarrow>
     (\<forall>h \<in> set hs. h \<noteq> [] \<longrightarrow> isValidAttr h) \<and> (\<exists>h \<in> set hs. h \<noteq> [])"
  using not_isValidAttr_empty
  unfolding headerRowValid_def list_all_iff list_ex_iff by metis

text \<open>
  C4. The validity flag of a table is true exactly when every non-empty entry of its
  header row is a valid key path and at least one entry is non-empty. So the empty row
  and a row of two empty entries are invalid, and the row of an empty entry and
  \<open>a.b\<close> is valid.
\<close>

theorem isValid_header_row:
  "(isValid (tableDetail tname hs values) \<longleftrightarrow>
      (\<forall>h \<in> set hs. h \<noteq> [] \<longrightarrow> isValidAttr h) \<and> (\<exists>h \<in> set hs. h \<noteq> [])) \<and>
   \<not> isValid (tableDetail tname [] values) \<and>
   \<not> isValid (tableDetail tname [[], []] values) \<and>
   isValid (tableDetail tname [[], ''a.b''] values)"
  by (simp add: tableDetail_def headerRowValid_iff isValidAttr_iff examples_isKeyPath)

theorem isValid_header_row_witness:
  "isValid (tableDetail ''T'' [[], ''a.b''] []) \<and> isValidAttr ''a.b''"
proof -
  note t = isValid_header_row [of "''T''" "[[], ''a.b'']" "[]"]
  from t have v: "isValid (tableDetail ''T'' [[], ''a.b''] [])"
    by (elim conjE)
  from t have e: "isValid (tableDetail ''T'' [[], ''a.b''] []) \<longleftrightarrow>
      (\<forall>h \<in> set [[], ''a.b'']. h \<noteq> [] \<longrightarrow> isValidAttr h) \<and> (\<exists>h \<in> set [[], ''a.b'']. h \<noteq> [])"
    by (rule conjunct1)
  from e v have "\<forall>h \<in> set [[], ''a.b'']. h \<noteq> [] \<longrightarrow> isValidAttr h"
    by (rule iffD1 [THEN conjunct1])
  then have "isValidAttr ''a.b''" by simp
  with v show ?thesis by (rule conjI)
qed

section \<open>Properties of the walk\<close>

lemma map_of_setOwn: "map_of (setOwn k v ps) k' = (if k' = k then Some v else map_of ps k')"
  by (induction ps) auto

lemma setOwn_setOwn: "setOwn k v (setOwn k w ps) = setOwn k v ps"
  by (induction ps) (auto simp: map_of_setOwn)

lemma setOwn_same: "map_of ps k = Some v \<Longrightarrow> setOwn k v ps = ps"
  by (induction ps) (auto split: if_splits)

lemma setOwn_absent:
  "map_of ps k = None \<Longrightarrow> \<not> isIndexKey k \<Longrightarrow> setOwn k v ps = ps @ [(k, v)]"
  by (induction ps) (auto split: if_splits)

lemma not_index_letter: "\<not> isDigit c \<Longrightarrow> \<not> isIndexKey (c # cs)"
  by (simp add: isIndexKey_def)

lemma proto_key: "''__proto__'' \<in> set objectPrototypeKeys"
  by (simp add: objectPrototypeKeys_def)

lemma assignPath_scalar:
  "assignPath strict (JScalar s) path v = Inr r \<Longrightarrow> r = JScalar s"
proof (cases path)
  case Nil
  assume "assignPath strict (JScalar s) path v = Inr r"
  then show ?thesis using Nil by (cases s) (auto split: if_splits)
next
  case (Cons k ks)
  assume a: "assignPath strict (JScalar s) path v = Inr r"
  show ?thesis
  proof (cases ks)
    case Nil
    with a Cons show ?thesis by (cases s) (auto split: if_splits)
  next
    case (Cons k' ks')
    with a \<open>path = k # ks\<close> show ?thesis
      by (cases s) (auto split: if_splits sum.splits)
  qed
qed

lemma assignPath_branch:
  assumes "map_of ps k = Some (JObj qs)"
  shows "assignPath strict (JObj ps) (k # k' # ks) v =
           (case assignPath strict (JObj qs) (k' # ks) v of
              Inl e \<Rightarrow> Inl e
            | Inr child \<Rightarrow> Inr (JObj (setOwn k child ps)))"
  using assms by (simp split: sum.splits)

lemma assignPath_new:
  assumes "map_of ps k = None" and "k \<notin> set objectPrototypeKeys"
  shows "assignPath strict (JObj ps) (k # k' # ks) v =
           (case assignPath strict (JObj []) (k' # ks) v of
              Inl e \<Rightarrow> Inl e
            | Inr child \<Rightarrow> Inr (JObj (setOwn k child ps)))"
proof -
  have "k \<noteq> ''__proto__''" using assms(2) proto_key by blast
  then show ?thesis
    using assms
    by (simp add: map_of_setOwn setOwn_setOwn split: sum.splits)
qed

lemma assignPath_falsy_any:
  assumes "map_of ps k = Some cur" and "\<not> truthy cur" and "k \<noteq> ''__proto__''"
  shows "assignPath strict (JObj ps) (k # k' # ks) v =
           (case assignPath strict (JObj []) (k' # ks) v of
              Inl e \<Rightarrow> Inl e
            | Inr child \<Rightarrow> Inr (JObj (setOwn k child ps)))"
  using assms
  by (simp add: map_of_setOwn setOwn_setOwn split: sum.splits)

lemma assignPath_falsy:
  assumes "map_of ps k = Some (JScalar s)" and "\<not> truthy (JScalar s)" and "k \<noteq> ''__proto__''"
  shows "assignPath strict (JObj ps) (k # k' # ks) v =
           (case assignPath strict (JObj []) (k' # ks) v of
              Inl e \<Rightarrow> Inl e
            | Inr child \<Rightarrow> Inr (JObj (setOwn k child ps)))"
  using assms by (rule assignPath_falsy_any)

lemma assignPath_truthy:
  assumes "map_of ps k = Some (JScalar s)" and "truthy (JScalar s)"
  shows "assignPath strict (JObj ps) (k # k' # ks) v =
           (case assignPath strict (JScalar s) (k' # ks) v of
              Inl e \<Rightarrow> Inl e
            | Inr child \<Rightarrow> Inr (JObj ps))"
proof (cases "assignPath strict (JScalar s) (k' # ks) v")
  case (Inl e)
  then show ?thesis using assms by simp
next
  case (Inr child)
  then have "child = JScalar s" by (rule assignPath_scalar)
  then show ?thesis using assms Inr by (simp add: setOwn_same)
qed

lemma falsy_scalar:
  "\<not> truthy (JScalar s) \<longleftrightarrow> s = JNum 0 \<or> s = JStr [] \<or> s = JBool False \<or> s = JNull"
  by (cases s) auto

section \<open>Header rows whose paths do not meet\<close>

lemma properPrefix_Cons: "properPrefix (k # r) (k # q) \<longleftrightarrow> properPrefix r q"
  by (simp add: properPrefix_def)

lemma properPrefix_single: "properPrefix [k] (k # k' # ks)"
  by (simp add: properPrefix_def)

lemma leavesIn_empty: "leavesIn (JObj []) Q"
  by (auto simp: leavesIn_def elim: lookupPath.elims)

lemma lookupPath_setOwn:
  "lookupPath (JObj (setOwn k c ps)) (k2 # r) =
     (if k2 = k then lookupPath c r else lookupPath (JObj ps) (k2 # r))"
  by (simp add: map_of_setOwn)

lemma leavesIn_child:
  assumes "leavesIn (JObj ps) Q" and "map_of ps k = Some c"
  shows "leavesIn c {r. k # r \<in> Q}"
  using assms by (auto simp: leavesIn_def)

lemma leavesIn_setOwn:
  assumes "leavesIn (JObj ps) Q" and "leavesIn c (insert q' {r. k # r \<in> Q})"
  shows "leavesIn (JObj (setOwn k c ps)) (insert (k # q') Q)"
  unfolding leavesIn_def
proof (intro allI impI)
  fix r s
  assume a: "lookupPath (JObj (setOwn k c ps)) r = Some (JScalar s)"
  show "r \<in> insert (k # q') Q"
  proof (cases r)
    case Nil
    with a show ?thesis by simp
  next
    case (Cons k2 r')
    show ?thesis
    proof (cases "k2 = k")
      case True
      with a Cons have "lookupPath c r' = Some (JScalar s)" by (simp add: map_of_setOwn)
      with assms(2) have "r' \<in> insert q' {r. k # r \<in> Q}" by (auto simp: leavesIn_def)
      with Cons True show ?thesis by auto
    next
      case False
      with a Cons have "lookupPath (JObj ps) r = Some (JScalar s)"
        by (simp add: map_of_setOwn)
      with assms(1) show ?thesis by (auto simp: leavesIn_def)
    qed
  qed
qed

lemma leavesIn_leaf:
  assumes "leavesIn (JObj ps) Q"
  shows "leavesIn (JObj (setOwn k (JScalar v) ps)) (insert [k] Q)"
proof -
  have "leavesIn (JScalar v) (insert [] {r. k # r \<in> Q})"
    by (auto simp: leavesIn_def elim: lookupPath.elims)
  with assms show ?thesis by (rule leavesIn_setOwn)
qed

lemma assignPath_ok:
  assumes "leavesIn (JObj ps) Q" and "q \<noteq> []"
    and "list_all (\<lambda>k. k \<notin> set objectPrototypeKeys) q"
    and "\<forall>r \<in> Q. \<not> properPrefix r q"
  shows "\<exists>ps'. assignPath strict (JObj ps) q (JScalar v) = Inr (JObj ps') \<and>
               leavesIn (JObj ps') (insert q Q)"
  using assms
proof (induction q arbitrary: ps Q)
  case Nil
  then show ?case by simp
next
  case (Cons k ks)
  from Cons.prems(3) have kb: "k \<notin> set objectPrototypeKeys" by simp
  then have kp: "k \<noteq> ''__proto__''" using proto_key by blast
  show ?case
  proof (cases ks)
    case Nil
    have "assignPath strict (JObj ps) [k] (JScalar v) = Inr (JObj (setOwn k (JScalar v) ps))"
      using kp by simp
    moreover have "leavesIn (JObj (setOwn k (JScalar v) ps)) (insert [k] Q)"
      using Cons.prems(1) by (rule leavesIn_leaf)
    ultimately show ?thesis unfolding Nil by blast
  next
    case (Cons k' ks')
    let ?Q' = "{r. k # r \<in> Q}"
    have ks_ne: "ks \<noteq> []" using Cons by simp
    have ks_ok: "list_all (\<lambda>k. k \<notin> set objectPrototypeKeys) ks"
      using Cons.prems(3) by simp
    have pre: "\<forall>r \<in> ?Q'. \<not> properPrefix r ks"
      using Cons.prems(4) by (auto simp: properPrefix_Cons)
    have "\<exists>cs. leavesIn (JObj cs) ?Q' \<and>
           assignPath strict (JObj ps) (k # ks) (JScalar v) =
             (case assignPath strict (JObj cs) ks (JScalar v) of
                Inl e \<Rightarrow> Inl e
              | Inr child \<Rightarrow> Inr (JObj (setOwn k child ps)))"
    proof (cases "map_of ps k")
      case None
      then show ?thesis
        using kb leavesIn_empty unfolding Cons by (metis assignPath_new)
    next
      case (Some cur)
      show ?thesis
      proof (cases cur)
        case JUndefined
        then show ?thesis
          using Some kp leavesIn_empty unfolding Cons
          by (metis assignPath_falsy_any truthy.simps(1))
      next
        case (JScalar s)
        with Some have "lookupPath (JObj ps) [k] = Some (JScalar s)" by simp
        with Cons.prems(1) have "[k] \<in> Q" by (auto simp: leavesIn_def)
        with Cons.prems(4) have "\<not> properPrefix [k] (k # ks)" by blast
        then show ?thesis unfolding Cons by (simp add: properPrefix_single)
      next
        case (JObj qs)
        with Some have m: "map_of ps k = Some (JObj qs)" by simp
        from Cons.prems(1) m have "leavesIn (JObj qs) ?Q'" by (rule leavesIn_child)
        then show ?thesis
          using m unfolding Cons by (metis assignPath_branch)
      qed
    qed
    then obtain cs where cs: "leavesIn (JObj cs) ?Q'"
      and step: "assignPath strict (JObj ps) (k # ks) (JScalar v) =
             (case assignPath strict (JObj cs) ks (JScalar v) of
                Inl e \<Rightarrow> Inl e
              | Inr child \<Rightarrow> Inr (JObj (setOwn k child ps)))"
      by blast
    from Cons.IH [OF cs ks_ne ks_ok pre]
    obtain ps' where r: "assignPath strict (JObj cs) ks (JScalar v) = Inr (JObj ps')"
      and l: "leavesIn (JObj ps') (insert ks ?Q')"
      by blast
    have "leavesIn (JObj (setOwn k (JObj ps') ps)) (insert (k # ks) Q)"
      using Cons.prems(1) l by (rule leavesIn_setOwn)
    then show ?thesis
      using step r by simp
  qed
qed

lemma foldCols_ok:
  assumes "\<forall>p \<in> P. list_all (\<lambda>k. k \<notin> set objectPrototypeKeys) p"
    and "\<forall>p \<in> P. \<forall>q \<in> P. \<not> properPrefix p q"
    and "leavesIn (JObj ps) Q" and "Q \<subseteq> P"
    and "\<forall>z \<in> set zs. fst z \<noteq> [] \<longrightarrow> split (CHR ''.'') (fst z) \<in> P"
  shows "\<exists>ps'. foldCols strict zs (JObj ps) = Inr (JObj ps')"
  using assms(3-5)
proof (induction zs arbitrary: ps Q)
  case Nil
  show ?case by simp
next
  case (Cons z zs)
  have "\<exists>ps1 Q1. assignCol strict z (JObj ps) = Inr (JObj ps1) \<and> leavesIn (JObj ps1) Q1 \<and> Q1 \<subseteq> P"
  proof (cases "fst z = []")
    case True
    then show ?thesis using Cons.prems(1,2) by (auto simp: assignCol_def)
  next
    case False
    let ?q = "split (CHR ''.'') (fst z)"
    from False Cons.prems(3) have q: "?q \<in> P" by simp
    have "\<exists>ps'. assignPath strict (JObj ps) ?q (JScalar (snd z)) = Inr (JObj ps') \<and>
               leavesIn (JObj ps') (insert ?q Q)"
    proof (rule assignPath_ok [OF Cons.prems(1)])
      show "?q \<noteq> []" by (rule split_not_Nil)
      show "list_all (\<lambda>k. k \<notin> set objectPrototypeKeys) ?q" using assms(1) q by blast
      show "\<forall>r \<in> Q. \<not> properPrefix r ?q" using assms(2) q Cons.prems(2) by blast
    qed
    then obtain ps' where "assignPath strict (JObj ps) ?q (JScalar (snd z)) = Inr (JObj ps')"
      and "leavesIn (JObj ps') (insert ?q Q)" by blast
    moreover have "insert ?q Q \<subseteq> P" using q Cons.prems(2) by simp
    ultimately show ?thesis using False by (auto simp: assignCol_def)
  qed
  then obtain ps1 Q1 where a: "assignCol strict z (JObj ps) = Inr (JObj ps1)"
    and l: "leavesIn (JObj ps1) Q1" and s: "Q1 \<subseteq> P" by blast
  from Cons.prems(3) have rest: "\<forall>z \<in> set zs. fst z \<noteq> [] \<longrightarrow> split (CHR ''.'') (fst z) \<in> P"
    by simp
  from Cons.IH [OF l s rest] a show ?case by simp
qed

lemma buildRow_returns:
  assumes "conflictFree keys"
  shows "\<exists>ps. buildRow strict keys cols = Inr (JObj ps)"
  unfolding buildRow_zip
proof (rule foldCols_ok [where P = "set (headerPaths keys)" and Q = "{}"])
  show "\<forall>p \<in> set (headerPaths keys). list_all (\<lambda>k. k \<notin> set objectPrototypeKeys) p"
    using assms by (simp add: conflictFree_def list_all_iff)
  show "\<forall>p \<in> set (headerPaths keys). \<forall>q \<in> set (headerPaths keys). \<not> properPrefix p q"
    using assms by (simp add: conflictFree_def list_all_iff)
  show "leavesIn (JObj []) {}" by (rule leavesIn_empty)
  show "{} \<subseteq> set (headerPaths keys)" by simp
  show "\<forall>z \<in> set (zip keys cols).
          fst z \<noteq> [] \<longrightarrow> split (CHR ''.'') (fst z) \<in> set (headerPaths keys)"
    by (auto simp: headerPaths_def dest: set_zip_leftD)
qed

lemma buildObject_returns:
  assumes "conflictFree keys"
  shows "\<exists>rs. buildObject strict values keys = Inr rs \<and> length rs = length values"
proof (induction "values")
  case Nil
  show ?case by (simp add: buildObject_Nil)
next
  case (Cons cols rows)
  from buildRow_returns [OF assms] obtain ps where "buildRow strict keys cols = Inr (JObj ps)"
    by blast
  with Cons show ?case by (auto simp: buildObject_Cons)
qed

text \<open>
  C5. \<open>buildObject\<close> returns a sequence exactly when every row builds a record, and the
  sequence is then those records in the order of the rows: as long as the block, the
  record at each index built from the row at that index and from nothing else. For a
  header row whose paths do not meet it does return, for every block.
\<close>

theorem buildObject_one_record_per_row:
  "(buildObject strict values keys = Inr rs \<longleftrightarrow>
      length rs = length values \<and>
      (\<forall>i < length values. buildRow strict keys (values ! i) = Inr (rs ! i))) \<and>
   (conflictFree keys \<longrightarrow>
      (\<exists>rs. buildObject strict values keys = Inr rs \<and> length rs = length values))"
proof (intro conjI impI)
  show "buildObject strict values keys = Inr rs \<longleftrightarrow>
      length rs = length values \<and>
      (\<forall>i < length values. buildRow strict keys (values ! i) = Inr (rs ! i))"
    by (rule buildObject_rows)
next
  assume "conflictFree keys"
  then show "\<exists>rs. buildObject strict values keys = Inr rs \<and> length rs = length values"
    by (rule buildObject_returns)
qed

theorem buildObject_one_record_per_row_witness:
  "conflictFree [''a''] \<and>
   buildObject False [[JNum 1], [JNum 2]] [''a''] =
     Inr [JObj [(''a'', JScalar (JNum 1))], JObj [(''a'', JScalar (JNum 2))]] \<and>
   buildRow False [''a''] [JNum 2] = Inr (JObj [(''a'', JScalar (JNum 2))])"
proof -
  let ?block = "[[JNum 1], [JNum 2]]"
  let ?rs = "[JObj [(''a'', JScalar (JNum 1))], JObj [(''a'', JScalar (JNum 2))]]"
  note t = buildObject_one_record_per_row [of False ?block "[''a'']" ?rs]
  have c: "conflictFree [''a'']"
    by (simp add: conflictFree_def headerPaths_def properPrefix_def objectPrototypeKeys_def)
  from t c obtain rs' where r: "buildObject False ?block [''a''] = Inr rs'"
    and n: "length rs' = length ?block"
    by blast
  from t have e: "buildObject False ?block [''a''] = Inr ?rs \<longleftrightarrow>
      length ?rs = length ?block \<and>
      (\<forall>i < length ?block. buildRow False [''a''] (?block ! i) = Inr (?rs ! i))"
    by (rule conjunct1)
  have b: "buildObject False ?block [''a''] = Inr ?rs"
    by (simp add: buildObject_def buildRow_def not_index_letter isDigit_def charIn_def)
  from e b have "\<forall>i < length ?block. buildRow False [''a''] (?block ! i) = Inr (?rs ! i)"
    by (rule iffD1 [THEN conjunct2])
  from this [rule_format, of 1] have "buildRow False [''a''] [JNum 2] =
      Inr (JObj [(''a'', JScalar (JNum 2))])"
    by simp
  with c b show ?thesis by (intro conjI)
qed

section \<open>Records with nested keys\<close>



lemma apart_single: "apart (k # r') (k # k' # ks) \<Longrightarrow> r' \<noteq> []"
  by (auto simp: apart_def properPrefix_def)




















section \<open>Columns that are not used\<close>

lemma zip_aligned:
  "zip keys cols = zip (take (min (length keys) (length cols)) keys)
                       (take (min (length keys) (length cols)) cols)"
proof -
  have "zip keys cols = take (min (length keys) (length cols)) (zip keys cols)"
    by simp
  then show ?thesis by (simp only: take_zip)
qed

lemma buildRow_aligned:
  "buildRow strict keys cols =
     buildRow strict (take (min (length keys) (length cols)) keys)
                     (take (min (length keys) (length cols)) cols)"
  unfolding buildRow_zip by (rule arg_cong [OF zip_aligned])

text \<open>
  C7. Header row and data row need not be equally long. A row builds exactly what its
  aligned prefix builds, the columns up to the shorter of the two, so the columns beyond
  are ignored and raise nothing; \<open>buildObject\<close> returns one record per row, each
  built from the aligned prefix of its row, whenever those prefixes build; and for a
  header row whose paths do not meet it returns whatever the lengths of the rows are.
\<close>

theorem buildObject_misaligned:
  "buildRow strict keys cols =
     buildRow strict (take (min (length keys) (length cols)) keys)
                     (take (min (length keys) (length cols)) cols) \<and>
   (buildObject strict values keys = Inr rs \<longleftrightarrow>
      length rs = length values \<and>
      (\<forall>i < length values.
         buildRow strict (take (min (length keys) (length (values ! i))) keys)
                         (take (min (length keys) (length (values ! i))) (values ! i)) =
           Inr (rs ! i))) \<and>
   (conflictFree keys \<longrightarrow>
      (\<exists>rs. buildObject strict values keys = Inr rs \<and> length rs = length values))"
proof (intro conjI impI)
  show "buildRow strict keys cols =
     buildRow strict (take (min (length keys) (length cols)) keys)
                     (take (min (length keys) (length cols)) cols)"
    by (rule buildRow_aligned)
next
  show "buildObject strict values keys = Inr rs \<longleftrightarrow>
      length rs = length values \<and>
      (\<forall>i < length values.
         buildRow strict (take (min (length keys) (length (values ! i))) keys)
                         (take (min (length keys) (length (values ! i))) (values ! i)) =
           Inr (rs ! i))"
    unfolding buildRow_aligned [symmetric] by (rule buildObject_rows)
next
  assume "conflictFree keys"
  then show "\<exists>rs. buildObject strict values keys = Inr rs \<and> length rs = length values"
    by (rule buildObject_returns)
qed

theorem buildObject_misaligned_witness:
  "conflictFree [''a'', ''b''] \<and>
   buildObject False [[JNum 1, JNum 2, JNum 3], [JNum 4]] [''a'', ''b''] =
     Inr [JObj [(''a'', JScalar (JNum 1)), (''b'', JScalar (JNum 2))],
          JObj [(''a'', JScalar (JNum 4))]] \<and>
   buildRow False (take (min 2 3) [''a'', ''b'']) (take (min 2 3) [JNum 1, JNum 2, JNum 3]) =
     Inr (JObj [(''a'', JScalar (JNum 1)), (''b'', JScalar (JNum 2))]) \<and>
   buildRow False (take (min 2 1) [''a'', ''b'']) (take (min 2 1) [JNum 4]) =
     Inr (JObj [(''a'', JScalar (JNum 4))])"
proof -
  let ?block = "[[JNum 1, JNum 2, JNum 3], [JNum 4]]"
  let ?rs = "[JObj [(''a'', JScalar (JNum 1)), (''b'', JScalar (JNum 2))],
              JObj [(''a'', JScalar (JNum 4))]]"
  note t = buildObject_misaligned [of False "[''a'', ''b'']" "[]" ?block ?rs]
  have c: "conflictFree [''a'', ''b'']"
    by (simp add: conflictFree_def headerPaths_def properPrefix_def objectPrototypeKeys_def)
  from t c obtain rs' where "buildObject False ?block [''a'', ''b''] = Inr rs'"
    and "length rs' = length ?block"
    by blast
  have b: "buildObject False ?block [''a'', ''b''] = Inr ?rs"
    by (simp add: buildObject_def buildRow_def not_index_letter isDigit_def charIn_def)
  from t
  have e: "buildObject False ?block [''a'', ''b''] = Inr ?rs \<longleftrightarrow>
      length ?rs = length ?block \<and>
      (\<forall>i < length ?block.
         buildRow False (take (min (length [''a'', ''b'']) (length (?block ! i))) [''a'', ''b''])
                        (take (min (length [''a'', ''b'']) (length (?block ! i))) (?block ! i)) =
           Inr (?rs ! i))"
    by (elim conjE)
  from e b have a: "\<forall>i < length ?block.
         buildRow False (take (min (length [''a'', ''b'']) (length (?block ! i))) [''a'', ''b''])
                        (take (min (length [''a'', ''b'']) (length (?block ! i))) (?block ! i)) =
           Inr (?rs ! i)"
    by (rule iffD1 [THEN conjunct2])
  from a [rule_format, of 0] a [rule_format, of 1] b c show ?thesis
    by simp
qed

lemma skip_column:
  assumes "c < length keys" and "c < length cols" and "keys ! c = []"
  shows "buildRow strict keys cols =
           buildRow strict (take c keys @ drop (Suc c) keys) (take c cols @ drop (Suc c) cols)"
proof -
  have k: "keys = take c keys @ keys ! c # drop (Suc c) keys"
    using assms(1) by (simp add: id_take_nth_drop [symmetric])
  have v: "cols = take c cols @ cols ! c # drop (Suc c) cols"
    using assms(2) by (simp add: id_take_nth_drop [symmetric])
  have "zip keys cols =
          zip (take c keys) (take c cols) @
          ([], cols ! c) # zip (drop (Suc c) keys) (drop (Suc c) cols)"
    using assms by (subst k, subst v) (simp add: zip_append min_absorb2)
  moreover have "zip (take c keys @ drop (Suc c) keys) (take c cols @ drop (Suc c) cols) =
          zip (take c keys) (take c cols) @ zip (drop (Suc c) keys) (drop (Suc c) cols)"
    using assms by (simp add: zip_append min_absorb2)
  ultimately show ?thesis
    by (simp add: buildRow_zip foldCols_append assignCol_def split: sum.splits)
qed

lemma skip_column_value:
  assumes "c < length keys" and "keys ! c = []"
  shows "buildRow strict keys (cols[c := v]) = buildRow strict keys cols"
proof (cases "c < length cols")
  case True
  then show ?thesis
    using assms by (simp add: skip_column [of c keys _ strict])
next
  case False
  then have "cols[c := v] = cols" by (simp add: list_update_beyond)
  then show ?thesis by simp
qed

text \<open>
  C9. A column whose header entry is the empty string is skipped: the record built from
  a row is the record built after that column is removed from the header row and from
  the row, and it stays the same whatever value the cell of that column holds. With the
  headers \<open>""\<close> and \<open>x\<close>, the row \<open>["ignored", 5]\<close> gives the record with \<open>x\<close> alone.
\<close>

theorem buildRow_skips_empty_header:
  "(c < length keys \<and> c < length cols \<and> keys ! c = [] \<longrightarrow>
      buildRow strict keys cols =
        buildRow strict (take c keys @ drop (Suc c) keys) (take c cols @ drop (Suc c) cols)) \<and>
   (c < length keys \<and> keys ! c = [] \<longrightarrow>
      buildRow strict keys (cols[c := v]) = buildRow strict keys cols) \<and>
   buildObject strict [[JStr ''ignored'', JNum 5]] [[], ''x''] =
     Inr [JObj [(''x'', JScalar (JNum 5))]]"
proof (intro conjI impI)
  assume "c < length keys \<and> c < length cols \<and> keys ! c = []"
  then show "buildRow strict keys cols =
        buildRow strict (take c keys @ drop (Suc c) keys) (take c cols @ drop (Suc c) cols)"
    by (simp add: skip_column)
next
  assume "c < length keys \<and> keys ! c = []"
  then show "buildRow strict keys (cols[c := v]) = buildRow strict keys cols"
    by (simp add: skip_column_value)
next
  show "buildObject strict [[JStr ''ignored'', JNum 5]] [[], ''x''] =
     Inr [JObj [(''x'', JScalar (JNum 5))]]"
    by (simp add: buildObject_def buildRow_def not_index_letter isDigit_def charIn_def)
qed

theorem buildRow_skips_empty_header_witness:
  "buildRow False [[], ''x''] [JStr ''ignored'', JNum 5] = buildRow False [''x''] [JNum 5] \<and>
   buildRow False [[], ''x''] [JStr ''other'', JNum 5] =
     buildRow False [[], ''x''] [JStr ''ignored'', JNum 5]"
proof -
  note t = buildRow_skips_empty_header
    [of 0 "[[], ''x'']" "[JStr ''ignored'', JNum 5]" False "JStr ''other''"]
  have h: "0 < length [[], ''x''] \<and> 0 < length [JStr ''ignored'', JNum 5] \<and> [[], ''x''] ! 0 = []"
    by simp
  from t h have "buildRow False [[], ''x''] [JStr ''ignored'', JNum 5] =
      buildRow False (take 0 [[], ''x''] @ drop (Suc 0) [[], ''x''])
        (take 0 [JStr ''ignored'', JNum 5] @ drop (Suc 0) [JStr ''ignored'', JNum 5])"
    by blast
  moreover from t h have "buildRow False [[], ''x''] ([JStr ''ignored'', JNum 5][0 := JStr ''other'']) =
      buildRow False [[], ''x''] [JStr ''ignored'', JNum 5]"
    by blast
  ultimately show ?thesis by simp
qed

section \<open>The lines of the JSON text\<close>

lemma mapIndex_commas:
  "N = i + length xs \<Longrightarrow>
   mapIndex (\<lambda>obj index. f obj @ (if int index < int N - 1 then '','' else [])) i xs =
     map (\<lambda>obj. f obj @ '','') (butlast xs) @ (if xs = [] then [] else [f (last xs)])"
proof (induction xs arbitrary: i)
  case Nil
  show ?case by simp
next
  case (Cons x xs)
  have rest: "mapIndex (\<lambda>obj index. f obj @ (if int index < int N - 1 then '','' else []))
        (Suc i) xs =
     map (\<lambda>obj. f obj @ '','') (butlast xs) @ (if xs = [] then [] else [f (last xs)])"
    by (rule Cons.IH) (simp add: Cons.prems)
  have first: "int i < int N - 1 \<longleftrightarrow> xs \<noteq> []"
    by (simp add: Cons.prems)
  show ?case
    by (simp add: rest first)
qed

text \<open>
  C6. The formatter returns the line \<open>[\<close>, then one line per record in order, the
  serialised record followed by a comma except for the last record, then the line
  \<open>]\<close>; for no records it returns the two lines \<open>[\<close> and \<open>]\<close>.
\<close>

theorem jsonFormatter_lines:
  "jsonFormatter stringify [] = [''['', '']''] \<and>
   jsonFormatter stringify (records @ [r]) =
     [''[''] @ map (\<lambda>obj. stringify obj @ '','') records @ [stringify r] @ ['']'']"
proof
  show "jsonFormatter stringify [] = [''['', '']'']"
    by (simp add: jsonFormatter_def)
next
  let ?data = "records @ [r]"
  have "mapIndex (\<lambda>obj index.
          stringify obj @ (if int index < int (length ?data) - 1 then '','' else [])) 0 ?data =
        map (\<lambda>obj. stringify obj @ '','') (butlast ?data) @
          (if ?data = [] then [] else [stringify (last ?data)])"
    by (rule mapIndex_commas) simp
  then show "jsonFormatter stringify ?data =
     [''[''] @ map (\<lambda>obj. stringify obj @ '','') records @ [stringify r] @ ['']'']"
    unfolding jsonFormatter_def by simp
qed

section \<open>Two headers on one path\<close>

lemma split_nested:
  assumes "CHR ''.'' \<notin> set p" and "CHR ''.'' \<notin> set q"
  shows "split (CHR ''.'') (p @ CHR ''.'' # q) = [p, q]"
  using assms by (simp add: split_append_sep split_no_sep)

lemma buildRow_two:
  "buildRow strict [h1, h2] [v1, v2] =
     (case assignCol strict (h1, v1) (JObj []) of
        Inl e \<Rightarrow> Inl e
      | Inr obj \<Rightarrow> assignCol strict (h2, v2) obj)"
  by (simp add: buildRow_zip split: sum.splits)

lemma buildObject_single:
  "buildObject strict [cols] keys =
     (case buildRow strict keys cols of Inl e \<Rightarrow> Inl e | Inr obj \<Rightarrow> Inr [obj])"
  by (simp add: buildObject_Cons buildObject_Nil split: sum.splits)

lemma later_scalar_wins:
  assumes "p \<noteq> []" and "CHR ''.'' \<notin> set p" and "CHR ''.'' \<notin> set q"
    and "p \<notin> set objectPrototypeKeys" and "q \<noteq> ''__proto__''"
  shows "buildObject strict [[v1, v2]] [p @ ''.'' @ q, p] = Inr [JObj [(p, JScalar v2)]]"
proof -
  have pp: "p \<noteq> ''__proto__''" using assms(4) proto_key by blast
  have 1: "assignCol strict (p @ CHR ''.'' # q, v1) (JObj []) = Inr (JObj [(p, JObj [(q, JScalar v1)])])"
    using assms pp by (simp add: assignCol_def split_nested assignPath_new)
  have 2: "assignCol strict (p, v2) (JObj [(p, JObj [(q, JScalar v1)])]) = Inr (JObj [(p, JScalar v2)])"
    using assms pp by (simp add: assignCol_def split_no_sep)
  show ?thesis
    by (simp add: buildObject_single buildRow_two 1 2)
qed

lemma later_branch_wins_falsy:
  assumes "p \<noteq> []" and "CHR ''.'' \<notin> set p" and "CHR ''.'' \<notin> set q"
    and "p \<notin> set objectPrototypeKeys" and "q \<noteq> ''__proto__''"
    and "\<not> truthy (JScalar v1)"
  shows "buildObject strict [[v1, v2]] [p, p @ ''.'' @ q] =
           Inr [JObj [(p, JObj [(q, JScalar v2)])]]"
proof -
  have pp: "p \<noteq> ''__proto__''" using assms(4) proto_key by blast
  have 1: "assignCol strict (p, v1) (JObj []) = Inr (JObj [(p, JScalar v1)])"
    using assms pp by (simp add: assignCol_def split_no_sep)
  have "assignPath strict (JObj [(p, JScalar v1)]) [p, q] (JScalar v2) =
          Inr (JObj [(p, JObj [(q, JScalar v2)])])"
    using assms pp by (simp add: assignPath_falsy [where s = v1])
  then have 2: "assignCol strict (p @ CHR ''.'' # q, v2) (JObj [(p, JScalar v1)]) =
          Inr (JObj [(p, JObj [(q, JScalar v2)])])"
    using assms by (simp add: assignCol_def split_nested)
  show ?thesis
    by (simp add: buildObject_single buildRow_two 1 2)
qed

text \<open>
  C2, as the code has it. \<open>buildObject\<close> has no error of its own for two headers
  that meet on one path, and what it builds depends on what the first of the two cells
  holds: for the headers \<open>a\<close> and \<open>a.b\<close> a cell \<open>0\<close> under \<open>a\<close> is replaced by
  the object of the later column, a cell \<open>5\<close> is kept and the later value is lost, or
  in strict mode the assignment throws; with \<open>a.b.c\<close> as the later header the cell
  \<open>5\<close> makes the walk throw in either mode.
\<close>

theorem conflict_counterexample:
  "buildObject False [[JNum 0, JNum 7]] [''a'', ''a.b''] =
     Inr [JObj [(''a'', JObj [(''b'', JScalar (JNum 7))])]] \<and>
   buildObject False [[JNum 5, JNum 7]] [''a'', ''a.b''] = Inr [JObj [(''a'', JScalar (JNum 5))]] \<and>
   buildObject True [[JNum 0, JNum 7]] [''a'', ''a.b''] =
     Inr [JObj [(''a'', JObj [(''b'', JScalar (JNum 7))])]] \<and>
   buildObject True [[JNum 5, JNum 7]] [''a'', ''a.b''] = Inl TypeError \<and>
   buildObject False [[JNum 5, JNum 7]] [''a'', ''a.b.c''] = Inl TypeError \<and>
   buildObject True [[JNum 5, JNum 7]] [''a'', ''a.b.c''] = Inl TypeError"
  by (simp add: buildObject_def buildRow_def objectPrototypeKeys_def numberPrototypeKeys_def
      not_index_letter isDigit_def charIn_def)

text \<open>
  C2, amended. When the nested header \<open>p.q\<close> comes first and the plain header \<open>p\<close>
  second, the later column wins whatever the two cells hold. When \<open>p\<close> comes first,
  the later column \<open>p.q\<close> wins if the cell under \<open>p\<close> is falsy.
\<close>

theorem conflicting_paths_resolution:
  "p \<noteq> [] \<and> CHR ''.'' \<notin> set p \<and> CHR ''.'' \<notin> set q \<and>
   p \<notin> set objectPrototypeKeys \<and> q \<noteq> ''__proto__'' \<longrightarrow>
     buildObject strict [[v1, v2]] [p @ ''.'' @ q, p] = Inr [JObj [(p, JScalar v2)]] \<and>
     (\<not> truthy (JScalar v1) \<longrightarrow>
        buildObject strict [[v1, v2]] [p, p @ ''.'' @ q] =
          Inr [JObj [(p, JObj [(q, JScalar v2)])]])"
  using later_scalar_wins [of p q strict v1 v2] later_branch_wins_falsy [of p q v1 strict v2]
  by blast

theorem conflicting_paths_resolution_witness:
  "buildObject False [[JNum 0, JNum 7]] [''a.b'', ''a''] = Inr [JObj [(''a'', JScalar (JNum 7))]] \<and>
   buildObject False [[JNum 0, JNum 7]] [''a'', ''a.b''] =
     Inr [JObj [(''a'', JObj [(''b'', JScalar (JNum 7))])]]"
proof -
  have h: "''a'' \<noteq> [] \<and> CHR ''.'' \<notin> set ''a'' \<and> CHR ''.'' \<notin> set ''b'' \<and>
      ''a'' \<notin> set objectPrototypeKeys \<and> ''b'' \<noteq> ''__proto__''"
    by (simp add: objectPrototypeKeys_def)
  have f: "\<not> truthy (JScalar (JNum 0))" by simp
  from conflicting_paths_resolution [of "''a''" "''b''" False "JNum 0" "JNum 7"] h f
  have "buildObject False [[JNum 0, JNum 7]] [''a'' @ ''.'' @ ''b'', ''a''] =
          Inr [JObj [(''a'', JScalar (JNum 7))]] \<and>
        buildObject False [[JNum 0, JNum 7]] [''a'', ''a'' @ ''.'' @ ''b''] =
          Inr [JObj [(''a'', JObj [(''b'', JScalar (JNum 7))])]]"
    by blast
  then show ?thesis by simp
qed

section \<open>A level that already holds a scalar\<close>

lemma assignPath_fresh:
  assumes "path \<noteq> []" and "list_all (\<lambda>k. k \<notin> set objectPrototypeKeys) path"
  shows "assignPath strict (JObj []) path v = Inr (branchOf path v)"
  using assms
proof (induction path)
  case Nil
  then show ?case by simp
next
  case (Cons k ks)
  from Cons.prems(2) have kb: "k \<notin> set objectPrototypeKeys" by simp
  then have kp: "k \<noteq> ''__proto__''" using proto_key by blast
  show ?case
  proof (cases ks)
    case Nil
    with kp show ?thesis by simp
  next
    case (Cons k' ks')
    with Cons.IH Cons.prems(2)
    have "assignPath strict (JObj []) (k' # ks') v = Inr (branchOf (k' # ks') v)" by simp
    then show ?thesis
      unfolding Cons using kb by (simp add: assignPath_new del: assignPath.simps)
  qed
qed

lemma assignPath_into_scalar:
  assumes "truthy (JScalar s)" and "q \<notin> set objectPrototypeKeys"
  shows "assignPath strict (JScalar s) (q # qs) v =
           (if qs = [] then (if strict then Inl TypeError else Inr (JScalar s))
            else if primitiveHas s q then Inl (BuiltinProperty q) else Inl TypeError)"
proof -
  have qp: "q \<noteq> ''__proto__''" using assms(2) proto_key by blast
  show ?thesis
  proof (cases qs)
    case Nil
    with assms(1) qp show ?thesis by (cases s) simp_all
  next
    case (Cons q' qs')
    have u: "assignPath st JUndefined (q' # qs') v = Inl TypeError" for st
      by (cases qs') simp_all
    show ?thesis
      unfolding Cons using assms(1) qp u by (cases s) (simp_all del: primitiveHas.simps)
  qed
qed

lemma split_hd_no_sep: "split sep s = k # rest \<Longrightarrow> sep \<notin> set k"
proof (induction s arbitrary: k rest)
  case Nil
  then show ?case by simp
next
  case (Cons c cs)
  show ?case
  proof (cases "c = sep")
    case True
    with Cons.prems show ?thesis by auto
  next
    case False
    obtain k' rest' where s: "split sep cs = k' # rest'"
      using split_not_Nil [of sep cs] by (cases "split sep cs") auto
    with Cons.IH have "sep \<notin> set k'" by blast
    with Cons.prems False s show ?thesis by auto
  qed
qed

lemma buildRow_snoc:
  assumes "length cols = length keys"
  shows "buildRow strict (keys @ [h]) (cols @ [v]) =
           (case buildRow strict keys cols of
              Inl e \<Rightarrow> Inl e
            | Inr r \<Rightarrow> assignCol strict (h, v) r)"
  using assms by (simp add: buildRow_zip foldCols_append split: sum.splits)

lemma buildObject_snoc:
  assumes "length cols = length keys" and "buildObject strict [cols] keys = Inr [JObj ps]"
    and "split (CHR ''.'') h = path" and "length path > 1"
  shows "buildObject strict [cols @ [v]] (keys @ [h]) =
           (case assignPath strict (JObj ps) path (JScalar v) of
              Inl e \<Rightarrow> Inl e
            | Inr r \<Rightarrow> Inr [r])"
proof -
  from assms(2) have r: "buildRow strict keys cols = Inr (JObj ps)"
    by (simp add: buildObject_single split: sum.splits)
  from assms(3,4) have h: "h \<noteq> []" by auto
  show ?thesis
    using assms(1,3) r h by (simp add: buildObject_single buildRow_snoc assignCol_def)
qed

lemma level_absent:
  assumes "length cols = length keys" and "buildObject strict [cols] keys = Inr [JObj ps]"
    and "split (CHR ''.'') h = k # q # qs"
    and "list_all (\<lambda>x. x \<notin> set objectPrototypeKeys) (k # q # qs)"
    and "map_of ps k = None"
  shows "buildObject strict [cols @ [v]] (keys @ [h]) =
           Inr [JObj (setOwn k (branchOf (q # qs) (JScalar v)) ps)]"
proof -
  from assms(4) have kb: "k \<notin> set objectPrototypeKeys"
    and r: "list_all (\<lambda>x. x \<notin> set objectPrototypeKeys) (q # qs)" by simp_all
  have f: "assignPath strict (JObj []) (q # qs) (JScalar v) = Inr (branchOf (q # qs) (JScalar v))"
    using r by (intro assignPath_fresh) simp_all
  have "assignPath strict (JObj ps) (k # q # qs) (JScalar v) =
          Inr (JObj (setOwn k (branchOf (q # qs) (JScalar v)) ps))"
    using assms(5) kb f by (simp add: assignPath_new del: assignPath.simps)
  then show ?thesis
    using buildObject_snoc [OF assms(1,2,3), of v] by simp
qed

lemma level_falsy:
  assumes "length cols = length keys" and "buildObject strict [cols] keys = Inr [JObj ps]"
    and "split (CHR ''.'') h = k # q # qs"
    and "list_all (\<lambda>x. x \<notin> set objectPrototypeKeys) (k # q # qs)"
    and "map_of ps k = Some (JScalar s)" and "\<not> truthy (JScalar s)"
  shows "buildObject strict [cols @ [v]] (keys @ [h]) =
           Inr [JObj (setOwn k (branchOf (q # qs) (JScalar v)) ps)]"
proof -
  from assms(4) have kb: "k \<notin> set objectPrototypeKeys"
    and r: "list_all (\<lambda>x. x \<notin> set objectPrototypeKeys) (q # qs)" by simp_all
  from kb have kp: "k \<noteq> ''__proto__''" using proto_key by blast
  have f: "assignPath strict (JObj []) (q # qs) (JScalar v) = Inr (branchOf (q # qs) (JScalar v))"
    using r by (intro assignPath_fresh) simp_all
  have "assignPath strict (JObj ps) (k # q # qs) (JScalar v) =
          Inr (JObj (setOwn k (branchOf (q # qs) (JScalar v)) ps))"
    using assms(5,6) kp f by (simp add: assignPath_falsy del: assignPath.simps)
  then show ?thesis
    using buildObject_snoc [OF assms(1,2,3), of v] by simp
qed

lemma level_truthy:
  assumes "length cols = length keys" and "buildObject strict [cols] keys = Inr [JObj ps]"
    and "split (CHR ''.'') h = k # q # qs"
    and "list_all (\<lambda>x. x \<notin> set objectPrototypeKeys) (k # q # qs)"
    and "map_of ps k = Some (JScalar s)" and "truthy (JScalar s)"
  shows "buildObject strict [cols @ [v]] (keys @ [h]) =
           (if qs = [] then (if strict then Inl TypeError else Inr [JObj ps])
            else if primitiveHas s q then Inl (BuiltinProperty q) else Inl TypeError)"
proof -
  from assms(4) have qb: "q \<notin> set objectPrototypeKeys" by simp
  have "assignPath strict (JObj ps) (k # q # qs) (JScalar v) =
          (if qs = [] then (if strict then Inl TypeError else Inr (JObj ps))
            else if primitiveHas s q then Inl (BuiltinProperty q) else Inl TypeError)"
    using assms(5,6) qb
    by (simp add: assignPath_truthy assignPath_into_scalar del: assignPath.simps primitiveHas.simps)
  then show ?thesis
    using buildObject_snoc [OF assms(1,2,3), of v] by simp
qed

lemma buildObject_one_column:
  assumes "k \<noteq> []" and "CHR ''.'' \<notin> set k" and "k \<notin> set objectPrototypeKeys"
  shows "buildObject strict [[v]] [k] = Inr [JObj [(k, JScalar v)]]"
proof -
  have "k \<noteq> ''__proto__''" using assms(3) proto_key by blast
  then show ?thesis
    using assms by (simp add: buildObject_single buildRow_zip assignCol_def split_no_sep)
qed

text \<open>
  C10. Let the earlier columns of a row have built a record, and let the next column
  have a header of at least two segments, the first of them \<open>k\<close>. When the record has
  no \<open>k\<close>, and also when an earlier column has left a falsy scalar (\<open>0\<close>, the empty
  string, \<open>false\<close>, \<open>null\<close>) under \<open>k\<close>, \<open>buildObject\<close> puts under \<open>k\<close> a fresh
  object holding the branch for the rest of the path; the falsy scalar is gone. A truthy
  scalar under \<open>k\<close> is kept and the walk goes on inside the scalar: the assignment
  there does nothing, or throws in strict mode, and a longer path throws. In particular
  for the two headers \<open>k\<close> and \<open>k.q\<close> the cell of the first column decides.
\<close>

theorem buildObject_intermediate_level:
  "length cols = length keys \<and> buildObject strict [cols] keys = Inr [JObj ps] \<and>
   split (CHR ''.'') h = k # q # qs \<and>
   list_all (\<lambda>x. x \<notin> set objectPrototypeKeys) (k # q # qs) \<longrightarrow>
     (map_of ps k = None \<longrightarrow>
        buildObject strict [cols @ [v]] (keys @ [h]) =
          Inr [JObj (setOwn k (branchOf (q # qs) (JScalar v)) ps)]) \<and>
     (map_of ps k = Some (JScalar s) \<and> \<not> truthy (JScalar s) \<longrightarrow>
        buildObject strict [cols @ [v]] (keys @ [h]) =
          Inr [JObj (setOwn k (branchOf (q # qs) (JScalar v)) ps)]) \<and>
     (map_of ps k = Some (JScalar s) \<and> truthy (JScalar s) \<longrightarrow>
        buildObject strict [cols @ [v]] (keys @ [h]) =
          (if qs = [] then (if strict then Inl TypeError else Inr [JObj ps])
           else if primitiveHas s q then Inl (BuiltinProperty q) else Inl TypeError)) \<and>
     (k \<noteq> [] \<longrightarrow>
        buildObject strict [[s, v]] [k, h] =
          (if \<not> truthy (JScalar s) then Inr [JObj [(k, branchOf (q # qs) (JScalar v))]]
           else if qs = [] then (if strict then Inl TypeError else Inr [JObj [(k, JScalar s)]])
           else if primitiveHas s q then Inl (BuiltinProperty q) else Inl TypeError)) \<and>
     buildObject strict [[v]] [h] = Inr [JObj [(k, branchOf (q # qs) (JScalar v))]] \<and>
     (\<not> truthy (JScalar s) \<longleftrightarrow> s = JNum 0 \<or> s = JStr [] \<or> s = JBool False \<or> s = JNull)"
proof (intro impI, elim conjE)
  assume n: "length cols = length keys"
    and b: "buildObject strict [cols] keys = Inr [JObj ps]"
    and h: "split (CHR ''.'') h = k # q # qs"
    and l: "list_all (\<lambda>x. x \<notin> set objectPrototypeKeys) (k # q # qs)"
  have 1: "map_of ps k = None \<longrightarrow>
        buildObject strict [cols @ [v]] (keys @ [h]) =
          Inr [JObj (setOwn k (branchOf (q # qs) (JScalar v)) ps)]"
    using level_absent [OF n b h l] by blast
  have 2: "map_of ps k = Some (JScalar s) \<and> \<not> truthy (JScalar s) \<longrightarrow>
        buildObject strict [cols @ [v]] (keys @ [h]) =
          Inr [JObj (setOwn k (branchOf (q # qs) (JScalar v)) ps)]"
    using level_falsy [OF n b h l] by blast
  have 3: "map_of ps k = Some (JScalar s) \<and> truthy (JScalar s) \<longrightarrow>
        buildObject strict [cols @ [v]] (keys @ [h]) =
          (if qs = [] then (if strict then Inl TypeError else Inr [JObj ps])
           else if primitiveHas s q then Inl (BuiltinProperty q) else Inl TypeError)"
    using level_truthy [OF n b h l] by blast
  have 4: "k \<noteq> [] \<longrightarrow>
        buildObject strict [[s, v]] [k, h] =
          (if \<not> truthy (JScalar s) then Inr [JObj [(k, branchOf (q # qs) (JScalar v))]]
           else if qs = [] then (if strict then Inl TypeError else Inr [JObj [(k, JScalar s)]])
           else if primitiveHas s q then Inl (BuiltinProperty q) else Inl TypeError)"
  proof
    assume k: "k \<noteq> []"
    from h have d: "CHR ''.'' \<notin> set k" by (rule split_hd_no_sep)
    from l have kb: "k \<notin> set objectPrototypeKeys" by simp
    have one: "buildObject strict [[s]] [k] = Inr [JObj [(k, JScalar s)]]"
      using k d kb by (rule buildObject_one_column)
    have n1: "length [s] = length [k]" by simp
    have m: "map_of [(k, JScalar s)] k = Some (JScalar s)" by simp
    show "buildObject strict [[s, v]] [k, h] =
          (if \<not> truthy (JScalar s) then Inr [JObj [(k, branchOf (q # qs) (JScalar v))]]
           else if qs = [] then (if strict then Inl TypeError else Inr [JObj [(k, JScalar s)]])
           else if primitiveHas s q then Inl (BuiltinProperty q) else Inl TypeError)"
    proof (cases "truthy (JScalar s)")
      case True
      from level_truthy [OF n1 one h l m True, of v] True show ?thesis
        by (simp del: primitiveHas.simps)
    next
      case False
      from level_falsy [OF n1 one h l m False, of v] False show ?thesis by simp
    qed
  qed
  have 5: "buildObject strict [[v]] [h] = Inr [JObj [(k, branchOf (q # qs) (JScalar v))]]"
  proof -
    have e: "buildObject strict [[]] [] = Inr [JObj []]"
      by (simp add: buildObject_single buildRow_zip)
    have "length ([] :: scalar list) = length ([] :: string list)" by simp
    from level_absent [OF this e h l, of v] show ?thesis by simp
  qed
  from 1 2 3 4 5 falsy_scalar [of s]
  show "(map_of ps k = None \<longrightarrow>
        buildObject strict [cols @ [v]] (keys @ [h]) =
          Inr [JObj (setOwn k (branchOf (q # qs) (JScalar v)) ps)]) \<and>
     (map_of ps k = Some (JScalar s) \<and> \<not> truthy (JScalar s) \<longrightarrow>
        buildObject strict [cols @ [v]] (keys @ [h]) =
          Inr [JObj (setOwn k (branchOf (q # qs) (JScalar v)) ps)]) \<and>
     (map_of ps k = Some (JScalar s) \<and> truthy (JScalar s) \<longrightarrow>
        buildObject strict [cols @ [v]] (keys @ [h]) =
          (if qs = [] then (if strict then Inl TypeError else Inr [JObj ps])
           else if primitiveHas s q then Inl (BuiltinProperty q) else Inl TypeError)) \<and>
     (k \<noteq> [] \<longrightarrow>
        buildObject strict [[s, v]] [k, h] =
          (if \<not> truthy (JScalar s) then Inr [JObj [(k, branchOf (q # qs) (JScalar v))]]
           else if qs = [] then (if strict then Inl TypeError else Inr [JObj [(k, JScalar s)]])
           else if primitiveHas s q then Inl (BuiltinProperty q) else Inl TypeError)) \<and>
     buildObject strict [[v]] [h] = Inr [JObj [(k, branchOf (q # qs) (JScalar v))]] \<and>
     (\<not> truthy (JScalar s) \<longleftrightarrow> s = JNum 0 \<or> s = JStr [] \<or> s = JBool False \<or> s = JNull)"
    by (intro conjI)
qed

lemma index_one: "isIndexKey ''1''"
  by (simp add: isIndexKey_def indexValue_def isDigit_def charIn_def)

theorem buildObject_intermediate_level_witness:
  "buildObject False [[JNum 0, JNum 7]] [''a'', ''a.b''] =
     Inr [JObj [(''a'', JObj [(''b'', JScalar (JNum 7))])]] \<and>
   buildObject False [[JNum 5, JNum 7]] [''a'', ''a.b''] = Inr [JObj [(''a'', JScalar (JNum 5))]] \<and>
   buildObject False [[JNum 3, JNum 7]] [''b'', ''1.c''] =
     Inr [JObj [(''1'', JObj [(''c'', JScalar (JNum 7))]), (''b'', JScalar (JNum 3))]]"
proof -
  have p: "list_all (\<lambda>x. x \<notin> set objectPrototypeKeys) [''a'', ''b'']"
    "list_all (\<lambda>x. x \<notin> set objectPrototypeKeys) [''1'', ''c'']"
    by (simp_all add: objectPrototypeKeys_def)
  have s: "split (CHR ''.'') ''a.b'' = [''a'', ''b'']" "split (CHR ''.'') ''1.c'' = [''1'', ''c'']"
    by simp_all
  have one: "buildObject False [[x]] [''a''] = Inr [JObj [(''a'', JScalar x)]]"
    "buildObject False [[x]] [''b''] = Inr [JObj [(''b'', JScalar x)]]" for x
    by (simp_all add: buildObject_def buildRow_def not_index_letter isDigit_def charIn_def)
  have "buildObject False [[JNum 0] @ [JNum 7]] ([''a''] @ [''a.b'']) =
          Inr [JObj (setOwn ''a'' (branchOf [''b''] (JScalar (JNum 7))) [(''a'', JScalar (JNum 0))])]"
    using buildObject_intermediate_level
      [of "[JNum 0]" "[''a'']" False "[(''a'', JScalar (JNum 0))]" "''a.b''" "''a''" "''b''" "[]"
          "JNum 7" "JNum 0"] p s one
    by simp
  moreover
  have "buildObject False [[JNum 5] @ [JNum 7]] ([''a''] @ [''a.b'']) = Inr [JObj [(''a'', JScalar (JNum 5))]]"
    using buildObject_intermediate_level
      [of "[JNum 5]" "[''a'']" False "[(''a'', JScalar (JNum 5))]" "''a.b''" "''a''" "''b''" "[]"
          "JNum 7" "JNum 5"] p s one
    by simp
  moreover
  have "buildObject False [[JNum 3] @ [JNum 7]] ([''b''] @ [''1.c'']) =
          Inr [JObj (setOwn ''1'' (branchOf [''c''] (JScalar (JNum 7))) [(''b'', JScalar (JNum 3))])]"
    using buildObject_intermediate_level
      [of "[JNum 3]" "[''b'']" False "[(''b'', JScalar (JNum 3))]" "''1.c''" "''1''" "''c''" "[]"
          "JNum 7" "JNum 0"] p s one
    by simp
  ultimately show ?thesis
    by (simp add: index_one not_index_letter isDigit_def charIn_def)
qed

section \<open>The values written for a batch of tables\<close>

lemma jsonLoop_acc:
  "jsonLoop strict fmt ts acc =
     (case jsonLoop strict fmt ts [] of Inl e \<Rightarrow> Inl e | Inr jv \<Rightarrow> Inr (acc @ jv))"
proof (induction ts arbitrary: acc)
  case Nil
  show ?case by simp
next
  case (Cons t ts)
  show ?case
    by (simp add: Cons.IH [of "acc @ _"] Cons.IH [of "[_]"] split: sum.splits)
qed

lemma jsonLoop_Cons:
  "jsonLoop strict fmt (t # ts) [] =
     (case tableLines strict fmt t of
        Inl e \<Rightarrow> Inl e
      | Inr ls \<Rightarrow>
          (case jsonLoop strict fmt ts [] of Inl e \<Rightarrow> Inl e | Inr jv \<Rightarrow> Inr (ls # jv)))"
  by (simp add: tableLines_def jsonLoop_acc [of _ _ _ "[_]"] split: sum.splits)

lemma jsonLoop_rows:
  "jsonLoop strict fmt ts [] = Inr jv \<longleftrightarrow>
     length jv = length ts \<and> (\<forall>i < length ts. tableLines strict fmt (ts ! i) = Inr (jv ! i))"
proof (induction ts arbitrary: jv)
  case Nil
  show ?case by auto
next
  case (Cons t ts)
  show ?case
  proof (cases jv)
    case Nil
    then show ?thesis by (auto simp: jsonLoop_Cons simp del: jsonLoop.simps split: sum.splits)
  next
    case (Cons ls jv')
    have step: "jsonLoop strict fmt (t # ts) [] = Inr (ls # jv') \<longleftrightarrow>
        tableLines strict fmt t = Inr ls \<and> jsonLoop strict fmt ts [] = Inr jv'"
      by (auto simp: jsonLoop_Cons simp del: jsonLoop.simps split: sum.splits)
    show ?thesis
      unfolding Cons step Cons.IH [of jv'] by (auto simp: All_less_Suc2)
  qed
qed

lemma jsonLoop_returns:
  "(\<exists>jv. jsonLoop strict fmt ts [] = Inr jv) \<longleftrightarrow>
     (\<forall>t \<in> set ts. \<exists>ls. tableLines strict fmt t = Inr ls)"
proof (induction ts)
  case Nil
  show ?case by simp
next
  case (Cons t ts)
  show ?case
    using Cons.IH by (auto simp: jsonLoop_Cons simp del: jsonLoop.simps split: sum.splits)
qed

lemma tableLines_returns:
  "(\<exists>ls. tableLines strict fmt t = Inr ls) \<longleftrightarrow>
     (isValid t \<longrightarrow> (\<exists>rs. buildObject strict (body t) (attrRow t) = Inr rs))"
  by (auto simp: tableLines_def split: sum.splits)

lemma transpose_returns: "(\<exists>tv. transposeJs a = Inr tv) \<longleftrightarrow> a \<noteq> []"
  by (cases a) (simp_all add: transposeJs_def)

lemma updateSheet_Inr:
  "updateSheet strict tables fmt = Inr u \<Longrightarrow>
     jsonLoop strict fmt tables [] = Inr (jsonValues u) \<and>
     metaNames u = map name tables \<and> metaValid u = map isValid tables \<and>
     metaRows u = map (\<lambda>t. if isValid t then length (body t) else 0) tables"
  by (auto simp: updateSheet_def split: sum.splits)

lemma updateSheet_returns:
  "(\<exists>u. updateSheet strict tables fmt = Inr u) \<longleftrightarrow>
     tables \<noteq> [] \<and>
     (\<forall>t \<in> set tables. isValid t \<longrightarrow> (\<exists>rs. buildObject strict (body t) (attrRow t) = Inr rs))"
proof -
  have "(\<exists>u. updateSheet strict tables fmt = Inr u) \<longleftrightarrow>
        (\<exists>jv. jsonLoop strict fmt tables [] = Inr jv \<and> (\<exists>tv. transposeJs jv = Inr tv))"
    by (auto simp: updateSheet_def split: sum.splits)
  then have "(\<exists>u. updateSheet strict tables fmt = Inr u) \<longleftrightarrow>
        (\<exists>jv. jsonLoop strict fmt tables [] = Inr jv \<and> jv \<noteq> [])"
    unfolding transpose_returns .
  also have "\<dots> \<longleftrightarrow> tables \<noteq> [] \<and> (\<exists>jv. jsonLoop strict fmt tables [] = Inr jv)"
    using jsonLoop_rows by fastforce
  finally show ?thesis
    by (simp add: jsonLoop_returns tableLines_returns)
qed

lemma transposeJs_first_empty: "transposeJs ([] # rest) = Inr []"
  by (simp add: transposeJs_def)

text \<open>
  The rows handed to the JSON range are as many as the first table has lines, whatever
  the other tables have; none when the first table is invalid.
\<close>

lemma jsonRange_first_invalid:
  assumes "updateSheet strict (t # ts) fmt = Inr u" and "\<not> isValid t"
  shows "jsonRangeValues u = []"
proof -
  from assms(1) obtain jv tv where jv: "jsonLoop strict fmt (t # ts) [] = Inr jv"
    and tv: "transposeJs jv = Inr tv" and u: "jsonRangeValues u = tv"
    by (auto simp: updateSheet_def simp del: jsonLoop.simps split: sum.splits)
  from jv assms(2) obtain rest where "jv = [] # rest"
    by (auto simp: jsonLoop_Cons tableLines_def simp del: jsonLoop.simps split: sum.splits)
  with tv u show ?thesis by (simp add: transposeJs_first_empty)
qed

text \<open>
  C8, as the code has it. The header row of \<open>1bad\<close> and an empty entry is valid: a
  segment may start with a digit, so the table named \<open>Orders\<close> with that header row is
  not flagged.
\<close>

theorem invalid_example_counterexample:
  "isValidAttr ''1bad'' \<and> isValid (tableDetail ''Orders'' [''1bad'', []] [[JNum 7, JNum 8]])"
  by (simp add: tableDetail_def headerRowValid_def isValidAttr_iff examples_isKeyPath)

text \<open>
  C8, amended. When \<open>updateSheet\<close> returns, every table has its name and its validity
  flag in the metadata; a table with an invalid header row, such as one of \<open>bad key\<close>
  and an empty entry, has row count 0 and no JSON lines; every valid table has the
  number of its rows and the formatter's lines for its own records, whatever the other
  tables are. For a batch that is not empty \<open>updateSheet\<close> returns unless building
  the records of a valid table throws: an invalid header row stops nothing.
\<close>

theorem updateSheet_reports:
  "(updateSheet strict tables fmt = Inr u \<longrightarrow>
      metaNames u = map name tables \<and> metaValid u = map isValid tables \<and>
      length (metaRows u) = length tables \<and> length (jsonValues u) = length tables \<and>
      (\<forall>i < length tables.
         (\<not> isValid (tables ! i) \<longrightarrow> metaRows u ! i = 0 \<and> jsonValues u ! i = []) \<and>
         (isValid (tables ! i) \<longrightarrow>
            metaRows u ! i = length (body (tables ! i)) \<and>
            (\<exists>rs. buildObject strict (body (tables ! i)) (attrRow (tables ! i)) = Inr rs \<and>
                  jsonValues u ! i = fmt rs)))) \<and>
   ((\<exists>u. updateSheet strict tables fmt = Inr u) \<longleftrightarrow>
      tables \<noteq> [] \<and>
      (\<forall>t \<in> set tables.
         isValid t \<longrightarrow> (\<exists>rs. buildObject strict (body t) (attrRow t) = Inr rs))) \<and>
   \<not> isValid (tableDetail ''Orders'' [''bad key'', []] values)"
proof (intro conjI impI allI)
  assume a: "updateSheet strict tables fmt = Inr u"
  note r = updateSheet_Inr [OF a]
  from r have jl: "jsonLoop strict fmt tables [] = Inr (jsonValues u)" by simp
  note rows = jl [unfolded jsonLoop_rows]
  show "metaNames u = map name tables" using r by simp
  show "metaValid u = map isValid tables" using r by simp
  show "length (metaRows u) = length tables" using r by simp
  show "length (jsonValues u) = length tables" using rows by simp
  fix i
  assume i: "i < length tables"
  with rows have tl: "tableLines strict fmt (tables ! i) = Inr (jsonValues u ! i)" by simp
  {
    assume "\<not> isValid (tables ! i)"
    then show "metaRows u ! i = 0" using r i by simp
  next
    assume "\<not> isValid (tables ! i)"
    then show "jsonValues u ! i = []" using tl by (simp add: tableLines_def)
  next
    assume "isValid (tables ! i)"
    then show "metaRows u ! i = length (body (tables ! i))" using r i by simp
  next
    assume "isValid (tables ! i)"
    then show "\<exists>rs. buildObject strict (body (tables ! i)) (attrRow (tables ! i)) = Inr rs \<and>
                  jsonValues u ! i = fmt rs"
      using tl by (auto simp: tableLines_def split: sum.splits)
  }
next
  show "(\<exists>u. updateSheet strict tables fmt = Inr u) \<longleftrightarrow>
      tables \<noteq> [] \<and>
      (\<forall>t \<in> set tables.
         isValid t \<longrightarrow> (\<exists>rs. buildObject strict (body t) (attrRow t) = Inr rs))"
    by (rule updateSheet_returns)
next
  have "\<not> isValidAttr ''bad key''"
    by (simp add: isValidAttr_iff isKeyPath_def isSegment_def wordChar_def charIn_def)
  then show "\<not> isValid (tableDetail ''Orders'' [''bad key'', []] values)"
    by (simp add: tableDetail_def headerRowValid_def)
qed

theorem updateSheet_reports_witness:
  "updateSheet False
     [tableDetail ''Orders'' [''bad key'', []] [[JNum 1, JNum 2]],
      tableDetail ''T'' [''x''] [[JNum 5]]]
     (jsonFormatter (\<lambda>obj. ''{}'')) =
   Inr \<lparr>metaNames = [''Orders'', ''T''], metaValid = [False, True], metaRows = [0, 1],
        jsonValues = [[], [''['', ''{}'', '']'']], rowMaxLength = 3, jsonRangeValues = []\<rparr> \<and>
   buildObject False [[JNum 5]] [''x''] = Inr [JObj [(''x'', JScalar (JNum 5))]]"
proof -
  let ?ts = "[tableDetail ''Orders'' [''bad key'', []] [[JNum 1, JNum 2]],
              tableDetail ''T'' [''x''] [[JNum 5]]]"
  let ?fmt = "jsonFormatter (\<lambda>obj. ''{}'')"
  let ?u = "\<lparr>metaNames = [''Orders'', ''T''], metaValid = [False, True], metaRows = [0, 1],
        jsonValues = [[], [''['', ''{}'', '']'']], rowMaxLength = 3,
        jsonRangeValues = ([] :: string option list list)\<rparr>"
  have x: "isValidAttr ''x''" and k: "\<not> isValidAttr ''bad key''"
    by (simp_all add: isValidAttr_iff isKeyPath_def isSegment_def wordChar_def charIn_def)
  have b: "buildObject False [[JNum 5]] [''x''] = Inr [JObj [(''x'', JScalar (JNum 5))]]"
    by (simp add: buildObject_def buildRow_def not_index_letter isDigit_def charIn_def)
  have r: "updateSheet False ?ts ?fmt = Inr ?u"
    by (simp add: updateSheet_def tableDetail_def headerRowValid_def x k b jsonFormatter_def
        transposeJs_def)
  from updateSheet_reports [of False ?ts ?fmt ?u "[]"] r
  have "\<forall>i < length ?ts.
         (\<not> isValid (?ts ! i) \<longrightarrow> metaRows ?u ! i = 0 \<and> jsonValues ?u ! i = []) \<and>
         (isValid (?ts ! i) \<longrightarrow>
            metaRows ?u ! i = length (body (?ts ! i)) \<and>
            (\<exists>rs. buildObject False (body (?ts ! i)) (attrRow (?ts ! i)) = Inr rs \<and>
                  jsonValues ?u ! i = ?fmt rs))"
    by blast
  from this [rule_format, of 1]
  have "\<exists>rs. buildObject False [[JNum 5]] [''x''] = Inr rs"
    by (auto simp: tableDetail_def headerRowValid_def x)
  with r b show ?thesis by simp
qed

end
